theory Spec2Isabelle
  imports Main "HOL-Library.Sublist"
begin

section \<open>TLS material provisioning of \<^verbatim>\<open>src/server/utils.js\<close>\<close>

text \<open>
  The theory embeds \<^verbatim>\<open>utils.tlsInit\<close> with its two private helpers \<^verbatim>\<open>createDH\<close> and
  \<^verbatim>\<open>readFile\<close>. The callbacks of the source become functions that take the state of
  the process (the key-value store \<^verbatim>\<open>db\<close> and the order of its observable effects) and
  return the value handed to \<^verbatim>\<open>callback\<close> together with the new state. What the
  source receives from outside (the file system, the decoding of a buffer by
  \<^verbatim>\<open>String(data)\<close>, the \<^verbatim>\<open>pem\<close> module, the home directory of \<^verbatim>\<open>paths.js\<close>) is a field of
  the environment record.
\<close>

subsection \<open>JavaScript values and strings\<close>

text \<open>
  A value that is either a string or \<^verbatim>\<open>undefined\<close> is a \<open>string option\<close>. In a
  condition, \<^verbatim>\<open>undefined\<close> and the empty string are false, every other string is true.
\<close>

definition truthy :: "string option \<Rightarrow> bool" where
  "truthy v = (case v of None \<Rightarrow> False | Some s \<Rightarrow> s \<noteq> [])"

text \<open>\<^verbatim>\<open>hay.indexOf(needle)\<close>: the first position where \<open>needle\<close> starts, or \<open>-1\<close>.\<close>

fun indexOf_from :: "nat \<Rightarrow> string \<Rightarrow> string \<Rightarrow> int" where
  "indexOf_from i [] needle = (if needle = [] then int i else - 1)"
| "indexOf_from i (c # cs) needle =
     (if take (length needle) (c # cs) = needle then int i
      else indexOf_from (Suc i) cs needle)"

definition indexOf :: "string \<Rightarrow> string \<Rightarrow> int" where
  "indexOf hay needle = indexOf_from 0 hay needle"

text \<open>\<^verbatim>\<open>hay.lastIndexOf(needle)\<close>: the last position where \<open>needle\<close> starts, or \<open>-1\<close>.\<close>

fun lastIndexOf_from :: "nat \<Rightarrow> int \<Rightarrow> string \<Rightarrow> string \<Rightarrow> int" where
  "lastIndexOf_from i found [] needle = (if needle = [] then int i else found)"
| "lastIndexOf_from i found (c # cs) needle =
     lastIndexOf_from (Suc i)
       (if take (length needle) (c # cs) = needle then int i else found) cs needle"

definition lastIndexOf :: "string \<Rightarrow> string \<Rightarrow> int" where
  "lastIndexOf hay needle = lastIndexOf_from 0 (- 1) hay needle"

text \<open>
  \<^verbatim>\<open>s.substring(a, b)\<close>: both indices are clamped to \<open>0 .. length s\<close> and swapped when
  \<open>a > b\<close>; \<^verbatim>\<open>s.substring(a)\<close> runs to the end of the string.
\<close>

definition substring :: "string \<Rightarrow> int \<Rightarrow> int \<Rightarrow> string" where
  "substring s a b =
     (let n = int (length s);
          a' = max 0 (min a n);
          b' = max 0 (min b n);
          lo = min a' b';
          hi = max a' b'
      in take (nat (hi - lo)) (drop (nat lo) s))"

definition substring_from :: "string \<Rightarrow> int \<Rightarrow> string" where
  "substring_from s a = substring s a (int (length s))"

text \<open>
  Where a delimiter stands in a text: \<open>needle\<close> occurs at position \<open>i\<close> of \<open>hay\<close>; it
  occurs there and nowhere before; it occurs there and nowhere after; it occurs nowhere.
\<close>

definition occurs_at :: "string \<Rightarrow> string \<Rightarrow> nat \<Rightarrow> bool" where
  "occurs_at hay needle i = (take (length needle) (drop i hay) = needle)"

definition first_at :: "string \<Rightarrow> string \<Rightarrow> nat \<Rightarrow> bool" where
  "first_at hay needle i =
     (occurs_at hay needle i \<and> list_all (\<lambda>j. \<not> occurs_at hay needle j) [0 ..< i])"

definition last_at :: "string \<Rightarrow> string \<Rightarrow> nat \<Rightarrow> bool" where
  "last_at hay needle i =
     (occurs_at hay needle i \<and>
      list_all (\<lambda>j. \<not> occurs_at hay needle j) [Suc i ..< Suc (length hay)])"

definition absent_from :: "string \<Rightarrow> string \<Rightarrow> bool" where
  "absent_from hay needle = list_all (\<lambda>j. \<not> occurs_at hay needle j) [0 ..< Suc (length hay)]"

subsection \<open>\<^verbatim>\<open>path.resolve\<close> (POSIX)\<close>

text \<open>
  \<^verbatim>\<open>path.resolve(paths.home, p)\<close> is Node's POSIX algorithm: the arguments are taken
  from the right, each non-empty one is put in front of the path built so far, until
  one of them starts with a slash (the working directory comes last); the result is then
  normalised segment by segment.
\<close>

fun split_slash :: "string \<Rightarrow> string list" where
  "split_slash [] = [[]]"
| "split_slash (c # cs) =
     (if c = CHR ''/'' then [] # split_slash cs
      else (case split_slash cs of
              [] \<Rightarrow> [[c]]
            | s # ss \<Rightarrow> (c # s) # ss))"

fun join_slash :: "string list \<Rightarrow> string" where
  "join_slash [] = []"
| "join_slash [s] = s"
| "join_slash (s # t # ss) = s @ ''/'' @ join_slash (t # ss)"

text \<open>
  \<^verbatim>\<open>normalizeString\<close>: \<open>res\<close> holds the segments kept so far, the last one first.
  Empty segments and \<^verbatim>\<open>.\<close> are dropped; \<^verbatim>\<open>..\<close> removes the last kept segment unless there
  is none or it is \<^verbatim>\<open>..\<close> itself, in which case it is kept only when the path may climb
  above its root.
\<close>

fun normalizeString :: "bool \<Rightarrow> string list \<Rightarrow> string list \<Rightarrow> string list" where
  "normalizeString allowAboveRoot res [] = rev res"
| "normalizeString allowAboveRoot res (s # ss) =
     (if s = [] \<or> s = ''.'' then normalizeString allowAboveRoot res ss
      else if s = ''..'' then
        (case res of
           [] \<Rightarrow> normalizeString allowAboveRoot (if allowAboveRoot then [''..''] else []) ss
         | r # rs \<Rightarrow>
             if r = ''..''
             then normalizeString allowAboveRoot
                    (if allowAboveRoot then ''..'' # r # rs else r # rs) ss
             else normalizeString allowAboveRoot rs ss)
      else normalizeString allowAboveRoot (s # res) ss)"

definition resolve_step :: "string \<Rightarrow> string \<times> bool \<Rightarrow> string \<times> bool" where
  "resolve_step p acc =
     (case acc of (resolvedPath, resolvedAbsolute) \<Rightarrow>
        if resolvedAbsolute \<or> p = [] then acc
        else (p @ ''/'' @ resolvedPath, hd p = CHR ''/''))"

definition path_resolve :: "string \<Rightarrow> string \<Rightarrow> string \<Rightarrow> string" where
  "path_resolve cwd a b =
     (case resolve_step cwd (resolve_step a (resolve_step b ([], False))) of
        (resolvedPath, resolvedAbsolute) \<Rightarrow>
          (let norm = join_slash (normalizeString (\<not> resolvedAbsolute) [] (split_slash resolvedPath))
           in if resolvedAbsolute then ''/'' @ norm
              else if norm = [] then ''.'' else norm))"

text \<open>
  A location lies inside a directory when the directory's segments are the first
  segments of the location.
\<close>

definition segments :: "string \<Rightarrow> string list" where
  "segments p = filter (\<lambda>s. s \<noteq> []) (split_slash p)"

definition inside :: "string \<Rightarrow> string \<Rightarrow> bool" where
  "inside base p = prefix (segments base) (segments p)"

text \<open>A segment as normalisation leaves it: not empty and without a slash.\<close>

definition plain :: "string \<Rightarrow> bool" where
  "plain s = (s \<noteq> [] \<and> CHR ''/'' \<notin> set s)"

subsection \<open>The process state\<close>

text \<open>
  Modelled from the spec: \<^verbatim>\<open>db.js\<close> is not among the sources; the spec gives its
  interface, \<^verbatim>\<open>get(name)\<close> returning the value or absent and \<^verbatim>\<open>set(name, value)\<close>. The
  store is a map from names to values. Every access to it and every line written by
  \<^verbatim>\<open>log.simple\<close> is recorded in order, so that a call that does not touch the store can be
  told from one that does.
\<close>

datatype event = DbGet string | DbSet string string | LogSimple string

record state =
  db :: "string \<rightharpoonup> string"
  trace :: "event list"

definition db_get :: "string \<Rightarrow> state \<Rightarrow> string option \<times> state" where
  "db_get name st = (db st name, st\<lparr>trace := trace st @ [DbGet name]\<rparr>)"

definition db_set :: "string \<Rightarrow> string \<Rightarrow> state \<Rightarrow> state" where
  "db_set name v st = st\<lparr>db := (db st)(name \<mapsto> v), trace := trace st @ [DbSet name v]\<rparr>"

definition log_simple :: "string \<Rightarrow> state \<Rightarrow> state" where
  "log_simple msg st = st\<lparr>trace := trace st @ [LogSimple msg]\<rparr>"

subsection \<open>The environment\<close>

text \<open>
  What \<^verbatim>\<open>fs.stat\<close> and \<^verbatim>\<open>fs.readFile\<close> find at a path: nothing, something that is not a
  regular file, a regular file with its bytes, or a regular file whose read fails with an
  error.
\<close>

datatype fs_node = NoEntry | NotRegular | Regular string | Unreadable string

text \<open>
  \<open>String_of\<close> is \<^verbatim>\<open>String(data)\<close> on the buffer that \<^verbatim>\<open>fs.readFile\<close> delivers: the text
  that decoding the bytes as UTF-8 gives. It leaves ASCII bytes as they are and puts a
  replacement character for what is not UTF-8, so the text of a file need not be its
  bytes. \<open>completed i\<close> says whether the \<open>i\<close>-th read of \<^verbatim>\<open>async.map\<close> had already delivered its
  result when the first failing read ended the map; it is read only when some read
  fails. The three \<^verbatim>\<open>pem\<close> functions return an error message or their result:
  the modulus size in bits, the PEM text of fresh parameters for a number of bits, and
  a service key with its certificate for a number of days.
\<close>

record env =
  home :: string
  cwd :: string
  fs :: "string \<Rightarrow> fs_node"
  String_of :: "string \<Rightarrow> string"
  completed :: "nat \<Rightarrow> bool"
  getDhparamInfo :: "string \<Rightarrow> string + nat"
  createDhparam :: "nat \<Rightarrow> string + string"
  createCertificate :: "nat \<Rightarrow> string + (string \<times> string)"

subsection \<open>Configuration, result and errors\<close>

record tls_config =
  opts_key :: "string option"
  opts_cert :: "string option"
  opts_ca :: "string option"
  opts_dhparam :: "string option"

record tls_material =
  selfsigned :: bool
  key :: string
  cert :: string
  ca :: "string option"
  dhparam :: "string option"

text \<open>
  The four errors built by \<^verbatim>\<open>tlsInit\<close> carry the resolved path of their message; an
  error of \<^verbatim>\<open>pem\<close> is passed on as it is.
\<close>

datatype error =
    MissingKeyFile string
  | MissingCertFile string
  | MissingCAFile string
  | MissingDHParamFile string
  | PemError string

definition DHPARAM_BITS :: nat where
  "DHPARAM_BITS = 2048"

definition CERT_DAYS :: nat where
  "CERT_DAYS = 365"

definition certStart :: string where
  "certStart = ''-----BEGIN CERTIFICATE-----''"

definition certEnd :: string where
  "certEnd = ''-----END CERTIFICATE-----''"

subsection \<open>\<^verbatim>\<open>readFile\<close> and the joined reads\<close>

text \<open>
  \<^verbatim>\<open>readFile\<close>: no path, nothing at the path or no regular file there give
  \<^verbatim>\<open>undefined\<close>; a regular file gives \<^verbatim>\<open>String(data)\<close> of its bytes, or the error of the
  read.
\<close>

definition readFile ::
  "(string \<Rightarrow> string) \<Rightarrow> (string \<Rightarrow> fs_node) \<Rightarrow> string option \<Rightarrow> string + string option" where
  "readFile decode files p =
     (case p of
        None \<Rightarrow> Inr None
      | Some q \<Rightarrow>
          (case files q of
             Regular data \<Rightarrow> Inr (Some (decode data))
           | Unreadable err \<Rightarrow> Inl err
           | _ \<Rightarrow> Inr None))"

text \<open>
  \<^verbatim>\<open>async.map(certPaths, readFile, function (_, data) ...)\<close>: the final callback drops
  the error. When every read succeeds \<open>data\<close> holds all results; when one fails, the
  callback runs at once with the results delivered until then, the others
  \<^verbatim>\<open>undefined\<close>.
\<close>

definition is_ok :: "string + string option \<Rightarrow> bool" where
  "is_ok r = (case r of Inl _ \<Rightarrow> False | Inr _ \<Rightarrow> True)"

definition delivered :: "string + string option \<Rightarrow> string option" where
  "delivered r = (case r of Inl _ \<Rightarrow> None | Inr v \<Rightarrow> v)"

definition asyncMap_readFile :: "env \<Rightarrow> string option list \<Rightarrow> string option list" where
  "asyncMap_readFile e ps =
     (let rs = map (readFile (String_of e) (fs e)) ps
      in if list_all is_ok rs then map delivered rs
         else map (\<lambda>(i, r). if completed e i then delivered r else None)
                (zip [0 ..< length rs] rs))"

definition certPaths :: "env \<Rightarrow> tls_config \<Rightarrow> string \<Rightarrow> string \<Rightarrow> string option list" where
  "certPaths e opts k c =
     [Some (path_resolve (cwd e) (home e) k),
      Some (path_resolve (cwd e) (home e) c),
      (case opts_ca opts of
         None \<Rightarrow> None
       | Some p \<Rightarrow> if p \<noteq> [] then Some (path_resolve (cwd e) (home e) p) else None),
      (case opts_dhparam opts of
         None \<Rightarrow> None
       | Some p \<Rightarrow> if p \<noteq> [] then Some (path_resolve (cwd e) (home e) p) else None)]"

subsection \<open>\<^verbatim>\<open>createDH\<close>\<close>

definition createDH :: "env \<Rightarrow> state \<Rightarrow> (error + string) \<times> state" where
  "createDH e st =
     (let st1 = log_simple ''Generating 2048 bit DH parameters. This will take a long time.'' st
      in case createDhparam e DHPARAM_BITS of
           Inl err \<Rightarrow> (Inl (PemError err), st1)
         | Inr result \<Rightarrow> (Inr result, db_set ''dhparam'' result st1))"

subsection \<open>\<^verbatim>\<open>tlsInit\<close>, certificates of the user\<close>

text \<open>The inner function \<^verbatim>\<open>finish\<close>, which splits a combined certificate.\<close>

definition finish :: "string \<Rightarrow> string \<Rightarrow> string option \<Rightarrow> string \<Rightarrow> tls_material" where
  "finish k c a dh =
     (if \<not> truthy a \<and> indexOf c certStart \<noteq> lastIndexOf c certStart
      then \<lparr>selfsigned = False, key = k,
            cert = substring c 0 (indexOf c certEnd + int (length certEnd)),
            ca = Some (substring_from c (lastIndexOf c certStart)),
            dhparam = Some dh\<rparr>
      else \<lparr>selfsigned = False, key = k, cert = c, ca = a, dhparam = Some dh\<rparr>)"

text \<open>
  The callback of \<^verbatim>\<open>async.map\<close>: \<open>paths\<close> is \<^verbatim>\<open>certPaths\<close> and \<open>data\<close> what was read.
  An entry missing from either list is \<^verbatim>\<open>undefined\<close>. The branch without a
  parameter file is the function \<open>useSaved\<close> below the branch with one.
\<close>

definition entry :: "string option list \<Rightarrow> nat \<Rightarrow> string option" where
  "entry xs i = (if i < length xs then xs ! i else None)"

text \<open>The text of a value where the source uses it as a string.\<close>

definition str :: "string option \<Rightarrow> string" where
  "str v = (case v of None \<Rightarrow> ''undefined'' | Some s \<Rightarrow> s)"

text \<open>The branch that takes the parameters of the store, or creates them.\<close>

definition useSaved ::
  "env \<Rightarrow> string \<Rightarrow> string \<Rightarrow> string option \<Rightarrow> state \<Rightarrow> (error + tls_material) \<times> state" where
  "useSaved e k c a st =
     (case db_get ''dhparam'' st of
        (saved, st1) \<Rightarrow>
          if truthy saved then (Inr (finish k c a (str saved)), st1)
          else
            (case createDH e st1 of
               (Inl err, st') \<Rightarrow> (Inl err, st')
             | (Inr dh, st') \<Rightarrow> (Inr (finish k c a dh), st')))"

definition afterRead ::
  "env \<Rightarrow> tls_config \<Rightarrow> string option list \<Rightarrow> string option list \<Rightarrow> state
     \<Rightarrow> (error + tls_material) \<times> state" where
  "afterRead e opts paths data st =
     (if \<not> truthy (entry data 0) then (Inl (MissingKeyFile (str (entry paths 0))), st)
      else if \<not> truthy (entry data 1) then (Inl (MissingCertFile (str (entry paths 1))), st)
      else if truthy (opts_ca opts) \<and> \<not> truthy (entry data 2)
        then (Inl (MissingCAFile (str (entry paths 2))), st)
      else if truthy (opts_dhparam opts) \<and> \<not> truthy (entry data 3)
        then (Inl (MissingDHParamFile (str (entry paths 3))), st)
      else
        (let k = str (entry data 0);
             c = str (entry data 1);
             a = entry data 2
         in if truthy (entry data 3) then
              (let dh = str (entry data 3)
               in case getDhparamInfo e dh of
                    Inl err \<Rightarrow> (Inl (PemError err), st)
                  | Inr bits \<Rightarrow>
                      if bits < 1024 then
                        (case createDH e (log_simple ''DH parameters key too short, regenerating'' st) of
                           (Inl err, st') \<Rightarrow> (Inl err, st')
                         | (Inr dh', st') \<Rightarrow> (Inr (finish k c a dh'), st'))
                      else (Inr (finish k c a dh), st))
            else useSaved e k c a st))"

subsection \<open>\<^verbatim>\<open>tlsInit\<close>, self-signed certificates\<close>

definition selfSigned :: "env \<Rightarrow> state \<Rightarrow> (error + tls_material) \<times> state" where
  "selfSigned e st =
     (case createCertificate e CERT_DAYS of
        Inl err \<Rightarrow> (Inl (PemError err), st)
      | Inr (serviceKey, certificate) \<Rightarrow>
          (case db_get ''dhparam'' st of
             (saved, st1) \<Rightarrow>
               (let data = \<lparr>selfsigned = True, key = serviceKey, cert = certificate,
                            ca = None, dhparam = saved\<rparr>
                in if truthy (dhparam data) then
                     (case getDhparamInfo e (str (dhparam data)) of
                        Inl err \<Rightarrow> (Inl (PemError err), st1)
                      | Inr bits \<Rightarrow>
                          if bits < 1024 then
                            (case createDH e (log_simple ''DH parameters key too short, regenerating'' st1) of
                               (Inl err, st') \<Rightarrow> (Inl err, st')
                             | (Inr dh, st') \<Rightarrow> (Inr (data\<lparr>dhparam := Some dh\<rparr>), st'))
                          else (Inr data, st1))
                   else
                     (case createDH e st1 of
                        (Inl err, st') \<Rightarrow> (Inl err, st')
                      | (Inr dh, st') \<Rightarrow> (Inr (data\<lparr>dhparam := Some dh\<rparr>), st')))))"

subsection \<open>\<^verbatim>\<open>tlsInit\<close>\<close>

definition tlsInit :: "env \<Rightarrow> tls_config \<Rightarrow> state \<Rightarrow> (error + tls_material) \<times> state" where
  "tlsInit e opts st =
     (case (opts_key opts, opts_cert opts) of
        (Some k, Some c) \<Rightarrow>
          (let paths = certPaths e opts k c
           in afterRead e opts paths (asyncMap_readFile e paths) st)
      | _ \<Rightarrow> selfSigned e st)"

text \<open>Calls made one after the other, each in its own environment, on the state the
  call before left.\<close>

fun tlsInit_seq ::
  "(env \<times> tls_config) list \<Rightarrow> state \<Rightarrow> (error + tls_material) list \<times> state" where
  "tlsInit_seq [] st = ([], st)"
| "tlsInit_seq ((e, opts) # calls) st =
     (case tlsInit e opts st of
        (r, st1) \<Rightarrow> (case tlsInit_seq calls st1 of (rs, st2) \<Rightarrow> (r # rs, st2)))"

subsection \<open>A sample installation\<close>

text \<open>
  A home directory with a key, three combined certificate files, a weak and a strong
  parameter file and a directory, all of them ASCII, which \<^verbatim>\<open>String(data)\<close> leaves as it
  is; a key outside the home directory; a \<^verbatim>\<open>pem\<close> module
  that knows two parameter texts, \<open>WEAK\<close> of 512 bits and \<open>STRONG\<close> of 2048 bits.
\<close>

definition ex_leaf :: string where
  "ex_leaf = certStart @ ''A'' @ certEnd @ [CHR 0x0A]"

definition ex_leaf_bare :: string where
  "ex_leaf_bare = certStart @ ''A'' @ certEnd"

definition ex_chain :: string where
  "ex_chain = certStart @ ''B'' @ certEnd @ [CHR 0x0A]"

definition ex_root :: string where
  "ex_root = certStart @ ''C'' @ certEnd @ [CHR 0x0A]"

definition ex_fs :: "string \<Rightarrow> fs_node" where
  "ex_fs p =
     (if p = ''/home/droppy/tls.key'' then Regular ''KEY''
      else if p = ''/home/droppy/tls.crt'' then Regular (ex_leaf @ ex_chain)
      else if p = ''/home/droppy/bare.crt'' then Regular (ex_leaf_bare @ ex_chain)
      else if p = ''/home/droppy/full.crt'' then Regular (ex_leaf_bare @ ex_chain @ ex_root)
      else if p = ''/home/droppy/weak.pem'' then Regular ''WEAK''
      else if p = ''/home/droppy/strong.pem'' then Regular ''STRONG''
      else if p = ''/home/droppy/certs'' then NotRegular
      else if p = ''/etc/ssl/private/host.key'' then Regular ''HOSTKEY''
      else NoEntry)"

definition ex_env :: env where
  "ex_env =
     \<lparr>home = ''/home/droppy'', cwd = ''/srv'', fs = ex_fs, String_of = (\<lambda>data. data),
      completed = (\<lambda>i. True),
      getDhparamInfo =
        (\<lambda>d. if d = ''WEAK'' then Inr 512
             else if d = ''STRONG'' then Inr 2048
             else Inl ''unable to load DH parameters''),
      createDhparam = (\<lambda>n. if n = 2048 then Inr ''STRONG'' else Inl ''unsupported size''),
      createCertificate = (\<lambda>days. Inr (''SERVICEKEY'', certStart @ ''S'' @ certEnd))\<rparr>"

definition ex_config :: "string option \<Rightarrow> string option \<Rightarrow> string option \<Rightarrow> string option \<Rightarrow> tls_config" where
  "ex_config k c a d = \<lparr>opts_key = k, opts_cert = c, opts_ca = a, opts_dhparam = d\<rparr>"

definition ex_user :: tls_config where
  "ex_user = ex_config (Some ''tls.key'') (Some ''tls.crt'') None None"

definition ex_self :: tls_config where
  "ex_self = ex_config None None None None"

definition ex_store :: "string option \<Rightarrow> state" where
  "ex_store v = \<lparr>db = (\<lambda>name. if name = ''dhparam'' then v else None), trace = []\<rparr>"

section \<open>Properties\<close>

subsection \<open>The joined reads\<close>

lemma asyncMap_four:
  "asyncMap_readFile e [p0, p1, p2, p3] =
     (if is_ok (readFile (String_of e) (fs e) p0) \<and> is_ok (readFile (String_of e) (fs e) p1) \<and>
         is_ok (readFile (String_of e) (fs e) p2) \<and> is_ok (readFile (String_of e) (fs e) p3)
      then [delivered (readFile (String_of e) (fs e) p0), delivered (readFile (String_of e) (fs e) p1),
            delivered (readFile (String_of e) (fs e) p2), delivered (readFile (String_of e) (fs e) p3)]
      else [if completed e 0 then delivered (readFile (String_of e) (fs e) p0) else None,
            if completed e 1 then delivered (readFile (String_of e) (fs e) p1) else None,
            if completed e 2 then delivered (readFile (String_of e) (fs e) p2) else None,
            if completed e 3 then delivered (readFile (String_of e) (fs e) p3) else None])"
  by (simp add: asyncMap_readFile_def Let_def upt_rec numeral_2_eq_2 numeral_3_eq_3)

lemma entry_asyncMap:
  "i < 4 \<Longrightarrow> entry (asyncMap_readFile e [p0, p1, p2, p3]) i = None \<or>
     entry (asyncMap_readFile e [p0, p1, p2, p3]) i
       = delivered (readFile (String_of e) (fs e) ([p0, p1, p2, p3] ! i))"
  unfolding asyncMap_four entry_def
  by (cases i rule: nat.exhaust) (auto simp: nth_Cons split: nat.splits)

lemma truthy_entry_asyncMap:
  assumes "truthy (entry (asyncMap_readFile e [p0, p1, p2, p3]) i)" "i < 4"
  shows "entry (asyncMap_readFile e [p0, p1, p2, p3]) i
           = delivered (readFile (String_of e) (fs e) ([p0, p1, p2, p3] ! i))"
  using entry_asyncMap[OF assms(2), of e p0 p1 p2 p3] assms(1) by (auto simp: truthy_def)

lemma certPaths_shape:
  "certPaths e opts k c =
     [certPaths e opts k c ! 0, certPaths e opts k c ! 1,
      certPaths e opts k c ! 2, certPaths e opts k c ! 3]"
  by (simp add: certPaths_def)

text \<open>An entry of \<open>data\<close> that counts as present is the text of the file at its path.\<close>

lemma data_entry:
  "i < 4 \<Longrightarrow> truthy (entry (asyncMap_readFile e (certPaths e opts k c)) i) \<Longrightarrow>
   entry (asyncMap_readFile e (certPaths e opts k c)) i
     = delivered (readFile (String_of e) (fs e) (certPaths e opts k c ! i))"
  using truthy_entry_asyncMap[of e "certPaths e opts k c ! 0" "certPaths e opts k c ! 1"
      "certPaths e opts k c ! 2" "certPaths e opts k c ! 3" i]
    certPaths_shape[of e opts k c] by simp

lemma readFile_None [simp]: "readFile decode files None = Inr None"
  by (simp add: readFile_def)

lemma data_dhparam_unset:
  assumes "\<not> truthy (opts_dhparam opts)"
  shows "\<not> truthy (entry (asyncMap_readFile e (certPaths e opts k c)) 3)"
proof
  assume t: "truthy (entry (asyncMap_readFile e (certPaths e opts k c)) 3)"
  have "certPaths e opts k c ! 3 = None"
    using assms by (auto simp: certPaths_def truthy_def split: option.splits)
  with data_entry[OF _ t] have "entry (asyncMap_readFile e (certPaths e opts k c)) 3 = None"
    by (simp add: delivered_def)
  with t show False by (simp add: truthy_def)
qed

lemma data_ca_unset:
  assumes "\<not> truthy (opts_ca opts)"
  shows "\<not> truthy (entry (asyncMap_readFile e (certPaths e opts k c)) 2)"
proof
  assume t: "truthy (entry (asyncMap_readFile e (certPaths e opts k c)) 2)"
  have "certPaths e opts k c ! 2 = None"
    using assms by (auto simp: certPaths_def truthy_def split: option.splits)
  with data_entry[OF _ t] have "entry (asyncMap_readFile e (certPaths e opts k c)) 2 = None"
    by (simp add: delivered_def)
  with t show False by (simp add: truthy_def)
qed

lemma str_Some [simp]: "str (Some s) = s"
  by (simp add: str_def)

lemma certPaths_nth:
  "certPaths e opts k c ! 0 = Some (path_resolve (cwd e) (home e) k)"
  "certPaths e opts k c ! Suc 0 = Some (path_resolve (cwd e) (home e) c)"
  "truthy (opts_ca opts) \<Longrightarrow>
     certPaths e opts k c ! 2 = Some (path_resolve (cwd e) (home e) (str (opts_ca opts)))"
  "truthy (opts_dhparam opts) \<Longrightarrow>
     certPaths e opts k c ! 3 = Some (path_resolve (cwd e) (home e) (str (opts_dhparam opts)))"
  by (auto simp: certPaths_def truthy_def str_def split: option.splits)

lemma entry_certPaths:
  "i < 4 \<Longrightarrow> entry (certPaths e opts k c) i = certPaths e opts k c ! i"
  by (simp add: entry_def certPaths_def)

text \<open>A key path that is not a regular file with some text leaves no key in \<open>data\<close>.\<close>

lemma key_unavailable:
  assumes "\<forall>t. fs e (path_resolve (cwd e) (home e) k) = Regular t \<longrightarrow> String_of e t = []"
  shows "\<not> truthy (entry (asyncMap_readFile e (certPaths e opts k c)) 0)"
proof
  assume t: "truthy (entry (asyncMap_readFile e (certPaths e opts k c)) 0)"
  from data_entry[OF _ t] have "entry (asyncMap_readFile e (certPaths e opts k c)) 0
     = delivered (readFile (String_of e) (fs e) (Some (path_resolve (cwd e) (home e) k)))"
    by (simp add: certPaths_nth)
  with t assms show False
    by (auto simp: truthy_def readFile_def delivered_def split: fs_node.splits)
qed

text \<open>The file system enters a call only through the reads of \<^verbatim>\<open>certPaths\<close>.\<close>

lemma asyncMap_cong:
  assumes "\<forall>p \<in> set ps. readFile (String_of e) f p = readFile (String_of e) (fs e) p"
  shows "asyncMap_readFile (e\<lparr>fs := f\<rparr>) ps = asyncMap_readFile e ps"
proof -
  have m: "map (readFile (String_of e) f) ps = map (readFile (String_of e) (fs e)) ps"
    using assms by simp
  show ?thesis by (simp add: asyncMap_readFile_def m cong: if_cong)
qed

lemma certPaths_fs [simp]: "certPaths (e\<lparr>fs := f\<rparr>) opts k c = certPaths e opts k c"
  by (simp add: certPaths_def cong: option.case_cong if_cong)

lemma createDH_fs [simp]: "createDH (e\<lparr>fs := f\<rparr>) st = createDH e st"
  by (simp add: createDH_def cong: sum.case_cong)

lemma useSaved_fs [simp]: "useSaved (e\<lparr>fs := f\<rparr>) k c a st = useSaved e k c a st"
  by (simp add: useSaved_def cong: prod.case_cong if_cong)

lemma afterRead_fs [simp]:
  "afterRead (e\<lparr>fs := f\<rparr>) opts paths data st = afterRead e opts paths data st"
  by (simp add: afterRead_def Let_def cong: sum.case_cong if_cong)

lemma selfSigned_fs [simp]: "selfSigned (e\<lparr>fs := f\<rparr>) st = selfSigned e st"
  by (simp add: selfSigned_def Let_def cong: sum.case_cong prod.case_cong if_cong)

subsection \<open>The two modes\<close>

lemma tlsInit_user:
  "opts_key opts = Some k \<Longrightarrow> opts_cert opts = Some c \<Longrightarrow>
   tlsInit e opts st =
     afterRead e opts (certPaths e opts k c) (asyncMap_readFile e (certPaths e opts k c)) st"
  by (simp add: tlsInit_def Let_def)

lemma tlsInit_self:
  "opts_key opts = None \<or> opts_cert opts = None \<Longrightarrow> tlsInit e opts st = selfSigned e st"
  by (auto simp: tlsInit_def split: option.splits)

lemma tlsInit_cases:
  obtains (user) k c where "opts_key opts = Some k" "opts_cert opts = Some c"
  | (self) "opts_key opts = None \<or> opts_cert opts = None"
  by (cases "opts_key opts"; cases "opts_cert opts") auto

lemma dhparam_finish [simp]: "dhparam (finish k c a dh) = Some dh"
  by (simp add: finish_def)

lemma tlsInit_reads_only_certPaths:
  assumes "\<And>k c q. opts_key opts = Some k \<Longrightarrow> opts_cert opts = Some c \<Longrightarrow>
             Some q \<in> set (certPaths e opts k c) \<Longrightarrow> f q = fs e q"
  shows "tlsInit (e\<lparr>fs := f\<rparr>) opts st = tlsInit e opts st"
proof (cases opts rule: tlsInit_cases)
  case (user k c)
  have "\<forall>p \<in> set (certPaths e opts k c).
          readFile (String_of e) f p = readFile (String_of e) (fs e) p"
  proof
    fix p assume mem: "p \<in> set (certPaths e opts k c)"
    show "readFile (String_of e) f p = readFile (String_of e) (fs e) p"
    proof (cases p)
      case None
      then show ?thesis by simp
    next
      case (Some q)
      with mem have "f q = fs e q" by (intro assms[OF user]) simp
      then show ?thesis by (simp add: readFile_def Some)
    qed
  qed
  then show ?thesis using user by (simp add: tlsInit_user asyncMap_cong)
next
  case self
  then have "opts_key opts = None \<or> opts_cert opts = None" .
  then show ?thesis by (simp add: tlsInit_self)
qed

text \<open>A call that returns a bundle passed the four checks and ended in \<^verbatim>\<open>finish\<close>.\<close>

lemma afterRead_success:
  assumes "fst (afterRead e opts paths data st) = Inr b"
  shows "truthy (entry data 0) \<and> truthy (entry data 1) \<and>
         (truthy (opts_ca opts) \<longrightarrow> truthy (entry data 2)) \<and>
         (truthy (opts_dhparam opts) \<longrightarrow> truthy (entry data 3)) \<and>
         (\<exists>dh. b = finish (str (entry data 0)) (str (entry data 1)) (entry data 2) dh)"
  using assms
  by (auto simp: afterRead_def Let_def useSaved_def db_get_def
           split: if_splits sum.splits prod.splits)

lemma substring_take: "0 \<le> n \<Longrightarrow> substring s 0 n = take (nat n) s"
  by (auto simp: substring_def Let_def min_def max_def)

lemma substring_from_drop: "0 \<le> n \<Longrightarrow> substring_from s n = drop (nat n) s"
  by (auto simp: substring_from_def substring_def Let_def min_def max_def)

subsection \<open>A strong parameter in the store\<close>

lemma useSaved_strong:
  assumes "db st ''dhparam'' = Some d" "d \<noteq> []"
  shows "useSaved e k c a st
           = (Inr (finish k c a d), st\<lparr>trace := trace st @ [DbGet ''dhparam'']\<rparr>)"
  using assms by (simp add: useSaved_def db_get_def truthy_def str_def)

lemma selfSigned_strong:
  assumes "db st ''dhparam'' = Some d" "d \<noteq> []" "getDhparamInfo e d = Inr n" "1024 \<le> n"
  shows "db (snd (selfSigned e st)) = db st \<and>
         (\<forall>b. fst (selfSigned e st) = Inr b \<longrightarrow> dhparam b = Some d)"
  using assms
  by (auto simp: selfSigned_def db_get_def truthy_def str_def Let_def
           split: sum.splits prod.splits)

lemma afterRead_strong:
  assumes "db st ''dhparam'' = Some d" "d \<noteq> []" "\<not> truthy (entry data 3)"
  shows "db (snd (afterRead e opts paths data st)) = db st \<and>
         (\<forall>b. fst (afterRead e opts paths data st) = Inr b \<longrightarrow> dhparam b = Some d)"
  using assms by (simp add: afterRead_def Let_def useSaved_strong)

lemma tlsInit_strong:
  assumes "db st ''dhparam'' = Some d" "d \<noteq> []" "\<not> truthy (opts_dhparam opts)"
    "getDhparamInfo e d = Inr n" "1024 \<le> n"
  shows "db (snd (tlsInit e opts st)) = db st \<and>
         (\<forall>b. fst (tlsInit e opts st) = Inr b \<longrightarrow> dhparam b = Some d)"
proof (cases opts rule: tlsInit_cases)
  case (user k c)
  then show ?thesis
    using afterRead_strong[OF assms(1,2) data_dhparam_unset[OF assms(3)]]
    by (simp add: tlsInit_user)
next
  case self
  then show ?thesis
    using selfSigned_strong[OF assms(1,2,4,5)] by (simp add: tlsInit_self)
qed

text \<open>
  C5. Idempotence. The store holds a parameter text \<open>d\<close> (a text, so not empty) whose
  modulus the inspector of every call measures at 1024 bits or more. Then any sequence
  of calls without a parameter file, in either mode, leaves the store as it was, and
  every call that returns a bundle returns \<open>d\<close> in it.
\<close>

theorem idempotent_on_strong_store:
  assumes "db st ''dhparam'' = Some d" "d \<noteq> []"
    "\<forall>(e, opts) \<in> set calls.
       \<not> truthy (opts_dhparam opts) \<and> (\<exists>n. getDhparamInfo e d = Inr n \<and> 1024 \<le> n)"
  shows "db (snd (tlsInit_seq calls st)) = db st \<and>
         (\<forall>r \<in> set (fst (tlsInit_seq calls st)). \<forall>b. r = Inr b \<longrightarrow> dhparam b = Some d)"
  using assms
proof (induction calls arbitrary: st)
  case Nil
  then show ?case by simp
next
  case (Cons call calls)
  obtain e opts where call: "call = (e, opts)" by (cases call)
  obtain r st1 where one: "tlsInit e opts st = (r, st1)" by (cases "tlsInit e opts st")
  from Cons.prems(3) call obtain n where
    h: "\<not> truthy (opts_dhparam opts)" "getDhparamInfo e d = Inr n" "1024 \<le> n" by auto
  from tlsInit_strong[OF Cons.prems(1,2) h] one
  have keep: "db st1 = db st" and res: "\<forall>b. r = Inr b \<longrightarrow> dhparam b = Some d" by simp_all
  have "db st1 ''dhparam'' = Some d" using keep Cons.prems(1) by simp
  from Cons.IH[OF this Cons.prems(2)] Cons.prems(3)
  have rest: "db (snd (tlsInit_seq calls st1)) = db st1"
    "\<forall>r \<in> set (fst (tlsInit_seq calls st1)). \<forall>b. r = Inr b \<longrightarrow> dhparam b = Some d"
    by auto
  show ?case using call one keep res rest by (auto split: prod.splits)
qed

theorem idempotent_on_strong_store_witness:
  "db (ex_store (Some ''STRONG'')) ''dhparam'' = Some ''STRONG'' \<and>
   getDhparamInfo ex_env ''STRONG'' = Inr 2048 \<and>
   db (snd (tlsInit_seq [(ex_env, ex_user), (ex_env, ex_self), (ex_env, ex_user)]
              (ex_store (Some ''STRONG'')))) = db (ex_store (Some ''STRONG'')) \<and>
   map (\<lambda>r. case r of Inl _ \<Rightarrow> None | Inr b \<Rightarrow> dhparam b)
     (fst (tlsInit_seq [(ex_env, ex_user), (ex_env, ex_self), (ex_env, ex_user)]
             (ex_store (Some ''STRONG''))))
     = [Some ''STRONG'', Some ''STRONG'', Some ''STRONG'']"
proof -
  have h1: "db (ex_store (Some ''STRONG'')) ''dhparam'' = Some ''STRONG''" by code_simp
  have h2: "''STRONG'' \<noteq> []" by simp
  have u: "\<not> truthy (opts_dhparam ex_user)" by code_simp
  have s: "\<not> truthy (opts_dhparam ex_self)" by code_simp
  have g: "getDhparamInfo ex_env ''STRONG'' = Inr 2048" by code_simp
  have h3: "\<forall>(e, opts) \<in> set [(ex_env, ex_user), (ex_env, ex_self), (ex_env, ex_user)].
       \<not> truthy (opts_dhparam opts) \<and> (\<exists>n. getDhparamInfo e ''STRONG'' = Inr n \<and> 1024 \<le> n)"
    using u s g by simp
  have ok: "map (\<lambda>r. case r of Inl _ \<Rightarrow> None | Inr b \<Rightarrow> dhparam b)
     (fst (tlsInit_seq [(ex_env, ex_user), (ex_env, ex_self), (ex_env, ex_user)]
             (ex_store (Some ''STRONG''))))
     = [Some ''STRONG'', Some ''STRONG'', Some ''STRONG'']" by code_simp
  from idempotent_on_strong_store[OF h1 h2 h3] h1 g ok show ?thesis by simp
qed

subsection \<open>The parameters of a returned bundle\<close>

lemma selfsigned_finish [simp]: "selfsigned (finish k c a dh) = False"
  by (simp add: finish_def)

lemma createDH_ok:
  assumes "createDH e st = (Inr g, st')"
  shows "createDhparam e DHPARAM_BITS = Inr g \<and> db st' ''dhparam'' = Some g"
  using assms
  by (auto simp: createDH_def Let_def log_simple_def db_set_def split: sum.splits)

text \<open>What a present entry for the parameter file is: the text of the configured file.\<close>

lemma data_dhparam_file:
  assumes "truthy (entry (asyncMap_readFile e (certPaths e opts k c)) 3)"
  shows "\<exists>p raw. opts_dhparam opts = Some p \<and> p \<noteq> [] \<and>
           fs e (path_resolve (cwd e) (home e) p) = Regular raw \<and>
           entry (asyncMap_readFile e (certPaths e opts k c)) 3 = Some (String_of e raw) \<and>
           String_of e raw \<noteq> []"
proof -
  let ?d = "entry (asyncMap_readFile e (certPaths e opts k c)) 3"
  have cfg: "truthy (opts_dhparam opts)"
    using data_dhparam_unset[of opts e k c] assms by blast
  then obtain p where p: "opts_dhparam opts = Some p" "p \<noteq> []"
    by (auto simp: truthy_def split: option.splits)
  have d: "?d = delivered (readFile (String_of e) (fs e) (Some (path_resolve (cwd e) (home e) p)))"
    using data_entry[OF _ assms] certPaths_nth(4)[OF cfg, of e k c] p by simp
  show ?thesis
  proof (cases "fs e (path_resolve (cwd e) (home e) p)")
    case (Regular raw)
    with d have "?d = Some (String_of e raw)" by (simp add: readFile_def delivered_def)
    moreover from this assms have "String_of e raw \<noteq> []" by (simp add: truthy_def)
    ultimately show ?thesis using p Regular by blast
  qed (use d assms in \<open>simp_all add: readFile_def delivered_def truthy_def\<close>)
qed

lemma useSaved_provenance:
  assumes "useSaved e k c a st = (Inr b, st')"
  shows "\<not> selfsigned b \<and>
         (\<exists>d. dhparam b = Some d \<and>
            (db st ''dhparam'' = Some d \<and> d \<noteq> [] \<or>
             createDhparam e DHPARAM_BITS = Inr d \<and> db st' ''dhparam'' = Some d))"
proof (cases "truthy (db st ''dhparam'')")
  case True
  then obtain d where "db st ''dhparam'' = Some d" "d \<noteq> []"
    by (auto simp: truthy_def split: option.splits)
  with assms show ?thesis by (auto simp: useSaved_def db_get_def truthy_def)
next
  case False
  with assms obtain st1 g where "createDH e st1 = (Inr g, st')" "b = finish k c a g"
    by (auto simp: useSaved_def db_get_def split: prod.splits sum.splits)
  with createDH_ok[of e st1 g st'] show ?thesis by simp
qed

lemma afterRead_provenance:
  assumes "afterRead e opts (certPaths e opts k c) (asyncMap_readFile e (certPaths e opts k c)) st
             = (Inr b, st')"
  shows "\<not> selfsigned b \<and>
         (\<exists>d. dhparam b = Some d \<and>
            ((\<exists>p raw n. opts_dhparam opts = Some p \<and> p \<noteq> [] \<and>
                fs e (path_resolve (cwd e) (home e) p) = Regular raw \<and> d = String_of e raw \<and>
                d \<noteq> [] \<and> getDhparamInfo e d = Inr n \<and> 1024 \<le> n) \<or>
             (\<not> truthy (opts_dhparam opts) \<and> db st ''dhparam'' = Some d \<and> d \<noteq> []) \<or>
             (createDhparam e DHPARAM_BITS = Inr d \<and> db st' ''dhparam'' = Some d)))"
proof -
  let ?data = "asyncMap_readFile e (certPaths e opts k c)"
  let ?kt = "str (entry ?data 0)" and ?ct = "str (entry ?data 1)" and ?a = "entry ?data 2"
  have pass: "truthy (entry ?data 0)" "truthy (entry ?data 1)"
    "truthy (opts_ca opts) \<longrightarrow> truthy (entry ?data 2)"
    "truthy (opts_dhparam opts) \<longrightarrow> truthy (entry ?data 3)"
    using afterRead_success[of e opts "certPaths e opts k c" ?data st b] assms by simp_all
  show ?thesis
  proof (cases "truthy (entry ?data 3)")
    case False
    with pass have nocfg: "\<not> truthy (opts_dhparam opts)" by blast
    from assms pass False have "useSaved e ?kt ?ct ?a st = (Inr b, st')"
      by (auto simp: afterRead_def Let_def split: if_splits)
    from useSaved_provenance[OF this] nocfg show ?thesis by blast
  next
    case True
    from data_dhparam_file[OF True] obtain p raw where
      f: "opts_dhparam opts = Some p" "p \<noteq> []"
         "fs e (path_resolve (cwd e) (home e) p) = Regular raw"
         "entry ?data 3 = Some (String_of e raw)" "String_of e raw \<noteq> []" by blast
    let ?d = "String_of e raw"
    let ?logged = "log_simple ''DH parameters key too short, regenerating'' st"
    show ?thesis
    proof (cases "getDhparamInfo e ?d")
      case (Inl err)
      with assms pass True f(4) show ?thesis
        by (auto simp: afterRead_def Let_def split: if_splits)
    next
      case (Inr n)
      show ?thesis
      proof (cases "n < 1024")
        case False
        with assms pass True f(4) Inr have "b = finish ?kt ?ct ?a ?d"
          by (auto simp: afterRead_def Let_def split: if_splits)
        with f Inr False show ?thesis by auto
      next
        case weak: True
        obtain r st1 where c: "createDH e ?logged = (r, st1)" by (cases "createDH e ?logged")
        show ?thesis
        proof (cases r)
          case (Inl err)
          with assms pass True f(4) Inr weak c show ?thesis
            by (auto simp: afterRead_def Let_def split: if_splits)
        next
          case r: (Inr g)
          with assms pass True f(4) Inr weak c have "b = finish ?kt ?ct ?a g" "st1 = st'"
            by (auto simp: afterRead_def Let_def split: if_splits)
          with createDH_ok[of e ?logged g st'] c r show ?thesis by simp
        qed
      qed
    qed
  qed
qed

lemma selfSigned_provenance:
  assumes "selfSigned e st = (Inr b, st')"
  shows "selfsigned b \<and>
         (\<exists>d. dhparam b = Some d \<and>
            ((db st ''dhparam'' = Some d \<and> d \<noteq> [] \<and>
              (\<exists>n. getDhparamInfo e d = Inr n \<and> 1024 \<le> n)) \<or>
             (createDhparam e DHPARAM_BITS = Inr d \<and> db st' ''dhparam'' = Some d)))"
proof -
  from assms obtain sk sc where cc: "createCertificate e CERT_DAYS = Inr (sk, sc)"
    by (cases "createCertificate e CERT_DAYS") (auto simp: selfSigned_def)
  let ?st1 = "st\<lparr>trace := trace st @ [DbGet ''dhparam'']\<rparr>"
  let ?data = "\<lparr>selfsigned = True, key = sk, cert = sc, ca = None, dhparam = db st ''dhparam''\<rparr>"
  show ?thesis
  proof (cases "truthy (db st ''dhparam'')")
    case False
    with assms cc obtain g where "createDH e ?st1 = (Inr g, st')" "b = ?data\<lparr>dhparam := Some g\<rparr>"
      by (auto simp: selfSigned_def db_get_def Let_def split: prod.splits sum.splits)
    with createDH_ok[of e ?st1 g st'] show ?thesis by simp
  next
    case True
    then obtain d where d: "db st ''dhparam'' = Some d" "d \<noteq> []"
      by (auto simp: truthy_def split: option.splits)
    from assms cc True d obtain n where n: "getDhparamInfo e d = Inr n"
      by (cases "getDhparamInfo e d") (auto simp: selfSigned_def db_get_def Let_def)
    show ?thesis
    proof (cases "n < 1024")
      case False
      with assms cc True d n have "b = ?data" by (simp add: selfSigned_def db_get_def Let_def)
      with d n False show ?thesis by auto
    next
      case weak: True
      with assms cc True d n obtain st1 g where
        "createDH e st1 = (Inr g, st')" "b = ?data\<lparr>dhparam := Some g\<rparr>"
        by (auto simp: selfSigned_def db_get_def Let_def split: prod.splits sum.splits)
      with createDH_ok[of e st1 g st'] show ?thesis by simp
    qed
  qed
qed

text \<open>
  C7. Every bundle that a call returns holds a parameter text \<open>d\<close>, and \<open>d\<close> is one of
  four things: the text of the user's parameter file, not empty and measured at 1024
  bits or more; in the user's mode without a parameter file, the stored text, not empty;
  in the self-signed mode, the stored text, not empty and measured at 1024 bits or more;
  or the text that \<^verbatim>\<open>pem.createDhparam\<close> has just generated for \<^verbatim>\<open>DHPARAM_BITS\<close> bits, which
  is then also the stored one. So the parameter of a bundle is never \<^verbatim>\<open>undefined\<close>, and
  it is not the empty text either unless the generator itself delivers an empty text.
\<close>

theorem bundle_has_dhparam:
  assumes "fst (tlsInit e opts st) = Inr b"
  shows "\<exists>d. dhparam b = Some d \<and>
           ((\<exists>p raw n. \<not> selfsigned b \<and> opts_dhparam opts = Some p \<and> p \<noteq> [] \<and>
               fs e (path_resolve (cwd e) (home e) p) = Regular raw \<and> d = String_of e raw \<and>
               d \<noteq> [] \<and> getDhparamInfo e d = Inr n \<and> 1024 \<le> n) \<or>
            (\<not> selfsigned b \<and> \<not> truthy (opts_dhparam opts) \<and>
               db st ''dhparam'' = Some d \<and> d \<noteq> []) \<or>
            (selfsigned b \<and> db st ''dhparam'' = Some d \<and> d \<noteq> [] \<and>
               (\<exists>n. getDhparamInfo e d = Inr n \<and> 1024 \<le> n)) \<or>
            (createDhparam e DHPARAM_BITS = Inr d \<and>
               db (snd (tlsInit e opts st)) ''dhparam'' = Some d)) \<and>
           ((\<forall>g. createDhparam e DHPARAM_BITS = Inr g \<longrightarrow> g \<noteq> []) \<longrightarrow> d \<noteq> [])"
proof (cases opts rule: tlsInit_cases)
  case (user k c)
  obtain st' where
    "afterRead e opts (certPaths e opts k c) (asyncMap_readFile e (certPaths e opts k c)) st
       = (Inr b, st')" and st': "st' = snd (tlsInit e opts st)"
    using assms by (cases "tlsInit e opts st") (simp add: tlsInit_user[OF user])
  from afterRead_provenance[OF this(1)] st' show ?thesis by fastforce
next
  case self
  obtain st' where "selfSigned e st = (Inr b, st')" and st': "st' = snd (tlsInit e opts st)"
    using assms by (cases "tlsInit e opts st") (simp add: tlsInit_self[OF self])
  from selfSigned_provenance[OF this(1)] st' show ?thesis by fastforce
qed

theorem bundle_has_dhparam_witness:
  "fst (tlsInit ex_env ex_self (ex_store None))
     = Inr \<lparr>selfsigned = True, key = ''SERVICEKEY'', cert = certStart @ ''S'' @ certEnd,
            ca = None, dhparam = Some ''STRONG''\<rparr> \<and>
   createDhparam ex_env DHPARAM_BITS = Inr ''STRONG'' \<and>
   truthy (dhparam \<lparr>selfsigned = True, key = ''SERVICEKEY'', cert = certStart @ ''S'' @ certEnd,
            ca = None, dhparam = Some ''STRONG''\<rparr>)"
proof -
  define b where "b = \<lparr>selfsigned = True, key = ''SERVICEKEY'',
     cert = certStart @ ''S'' @ certEnd, ca = None, dhparam = Some ''STRONG''\<rparr>"
  have "fst (tlsInit ex_env ex_self (ex_store None))
     = Inr \<lparr>selfsigned = True, key = ''SERVICEKEY'', cert = certStart @ ''S'' @ certEnd,
            ca = None, dhparam = Some ''STRONG''\<rparr>" by code_simp
  then have h: "fst (tlsInit ex_env ex_self (ex_store None)) = Inr b" by (simp add: b_def)
  have g: "createDhparam ex_env DHPARAM_BITS = Inr ''STRONG''" by code_simp
  then have gen: "\<forall>g. createDhparam ex_env DHPARAM_BITS = Inr g \<longrightarrow> g \<noteq> []" by simp
  from bundle_has_dhparam[OF h] gen obtain d where "dhparam b = Some d" "d \<noteq> []" by blast
  then have "truthy (dhparam b)" by (simp add: truthy_def)
  with h g show ?thesis by (simp add: b_def)
qed

subsection \<open>A strong parameter file of the user\<close>

text \<open>
  C10. In the user's mode, with a parameter file configured that is a regular file
  whose text (\<^verbatim>\<open>String(data)\<close> of its bytes) the inspector measures at 1024 bits or more, a call leaves the whole state
  as it found it: the store is not written, and no access to it, not even a read, is
  added to the trace. This holds whether the call returns a bundle or an error.
\<close>

theorem strong_user_file_leaves_store_alone:
  assumes "opts_key opts = Some k" "opts_cert opts = Some c"
    "opts_dhparam opts = Some p" "p \<noteq> []"
    "fs e (path_resolve (cwd e) (home e) p) = Regular raw"
    "getDhparamInfo e (String_of e raw) = Inr n" "1024 \<le> n"
  shows "snd (tlsInit e opts st) = st"
proof -
  let ?data = "asyncMap_readFile e (certPaths e opts k c)"
  have cfg: "truthy (opts_dhparam opts)" using assms(3,4) by (simp add: truthy_def)
  have d3: "truthy (entry ?data 3) \<Longrightarrow> entry ?data 3 = Some (String_of e raw)"
    using data_entry[of 3 e opts k c] certPaths_nth(4)[OF cfg, of e k c] assms(3,5)
    by (simp add: readFile_def delivered_def)
  show ?thesis
    using d3 cfg assms(6,7)
    by (auto simp: tlsInit_user[OF assms(1,2)] afterRead_def Let_def)
qed

theorem strong_user_file_leaves_store_alone_witness:
  "opts_dhparam (ex_config (Some ''tls.key'') (Some ''bare.crt'') None (Some ''strong.pem''))
     = Some ''strong.pem'' \<and>
   fs ex_env (path_resolve (cwd ex_env) (home ex_env) ''strong.pem'') = Regular ''STRONG'' \<and>
   getDhparamInfo ex_env (String_of ex_env ''STRONG'') = Inr 2048 \<and>
   snd (tlsInit ex_env (ex_config (Some ''tls.key'') (Some ''bare.crt'') None (Some ''strong.pem''))
          (ex_store (Some ''WEAK''))) = ex_store (Some ''WEAK'') \<and>
   dhparam (projr (fst (tlsInit ex_env
       (ex_config (Some ''tls.key'') (Some ''bare.crt'') None (Some ''strong.pem''))
       (ex_store (Some ''WEAK''))))) = Some ''STRONG''"
proof -
  let ?opts = "ex_config (Some ''tls.key'') (Some ''bare.crt'') None (Some ''strong.pem'')"
  have k: "opts_key ?opts = Some ''tls.key''" by code_simp
  have c: "opts_cert ?opts = Some ''bare.crt''" by code_simp
  have p: "opts_dhparam ?opts = Some ''strong.pem''" by code_simp
  have ne: "''strong.pem'' \<noteq> []" by simp
  have f: "fs ex_env (path_resolve (cwd ex_env) (home ex_env) ''strong.pem'') = Regular ''STRONG''"
    by code_simp
  have g: "getDhparamInfo ex_env (String_of ex_env ''STRONG'') = Inr 2048" by code_simp
  have r: "dhparam (projr (fst (tlsInit ex_env ?opts (ex_store (Some ''WEAK''))))) = Some ''STRONG''"
    by code_simp
  from strong_user_file_leaves_store_alone[OF k c p ne f g, of "ex_store (Some ''WEAK'')"] p f g r
  show ?thesis by simp
qed

subsection \<open>The order of the checks\<close>

text \<open>
  C6. In the user's mode the four checks run in the order key, certificate,
  intermediate certificate, parameter file, and the first one that fails gives the
  error, with the state untouched; \<open>data\<close> is what the joined reads delivered. In
  particular, when neither the key nor the certificate exists, the error is the one of
  the key.
\<close>

theorem validation_order:
  assumes "opts_key opts = Some k" "opts_cert opts = Some c"
    "data = asyncMap_readFile e (certPaths e opts k c)"
  shows
   "(\<not> truthy (entry data 0) \<longrightarrow>
       tlsInit e opts st = (Inl (MissingKeyFile (path_resolve (cwd e) (home e) k)), st)) \<and>
    (truthy (entry data 0) \<and> \<not> truthy (entry data 1) \<longrightarrow>
       tlsInit e opts st = (Inl (MissingCertFile (path_resolve (cwd e) (home e) c)), st)) \<and>
    (truthy (entry data 0) \<and> truthy (entry data 1) \<and>
     truthy (opts_ca opts) \<and> \<not> truthy (entry data 2) \<longrightarrow>
       tlsInit e opts st
         = (Inl (MissingCAFile (path_resolve (cwd e) (home e) (str (opts_ca opts)))), st)) \<and>
    (truthy (entry data 0) \<and> truthy (entry data 1) \<and>
     \<not> (truthy (opts_ca opts) \<and> \<not> truthy (entry data 2)) \<and>
     truthy (opts_dhparam opts) \<and> \<not> truthy (entry data 3) \<longrightarrow>
       tlsInit e opts st
         = (Inl (MissingDHParamFile
                   (path_resolve (cwd e) (home e) (str (opts_dhparam opts)))), st)) \<and>
    (fs e (path_resolve (cwd e) (home e) k) = NoEntry \<and>
     fs e (path_resolve (cwd e) (home e) c) = NoEntry \<longrightarrow>
       tlsInit e opts st = (Inl (MissingKeyFile (path_resolve (cwd e) (home e) k)), st))"
proof -
  have "fs e (path_resolve (cwd e) (home e) k) = NoEntry \<Longrightarrow> \<not> truthy (entry data 0)"
    unfolding assms(3) by (rule key_unavailable) simp
  then show ?thesis
    unfolding tlsInit_user[OF assms(1,2)] assms(3)[symmetric]
    by (simp add: afterRead_def entry_certPaths certPaths_nth)
qed

theorem validation_order_witness:
  "fst (tlsInit ex_env (ex_config (Some ''nope.key'') (Some ''nope.crt'') None None)
          (ex_store None)) = Inl (MissingKeyFile ''/home/droppy/nope.key'') \<and>
   fst (tlsInit ex_env
          (ex_config (Some ''nope.key'') (Some ''nope.crt'') (Some ''nope.ca'') (Some ''nope.pem''))
          (ex_store None)) = Inl (MissingKeyFile ''/home/droppy/nope.key'') \<and>
   fst (tlsInit ex_env
          (ex_config (Some ''tls.key'') (Some ''nope.crt'') (Some ''nope.ca'') (Some ''nope.pem''))
          (ex_store None)) = Inl (MissingCertFile ''/home/droppy/nope.crt'') \<and>
   fst (tlsInit ex_env
          (ex_config (Some ''tls.key'') (Some ''tls.crt'') (Some ''nope.ca'') (Some ''nope.pem''))
          (ex_store None)) = Inl (MissingCAFile ''/home/droppy/nope.ca'') \<and>
   fst (tlsInit ex_env
          (ex_config (Some ''tls.key'') (Some ''tls.crt'') None (Some ''nope.pem''))
          (ex_store None)) = Inl (MissingDHParamFile ''/home/droppy/nope.pem'')"
proof -
  let ?st = "ex_store None"
  let ?o1 = "ex_config (Some ''nope.key'') (Some ''nope.crt'') None None"
  let ?o2 = "ex_config (Some ''nope.key'') (Some ''nope.crt'') (Some ''nope.ca'') (Some ''nope.pem'')"
  let ?o3 = "ex_config (Some ''tls.key'') (Some ''nope.crt'') (Some ''nope.ca'') (Some ''nope.pem'')"
  let ?o4 = "ex_config (Some ''tls.key'') (Some ''tls.crt'') (Some ''nope.ca'') (Some ''nope.pem'')"
  let ?o5 = "ex_config (Some ''tls.key'') (Some ''tls.crt'') None (Some ''nope.pem'')"
  have pk: "path_resolve (cwd ex_env) (home ex_env) ''nope.key'' = ''/home/droppy/nope.key''"
    by code_simp
  have pc: "path_resolve (cwd ex_env) (home ex_env) ''nope.crt'' = ''/home/droppy/nope.crt''"
    by code_simp
  have pa: "path_resolve (cwd ex_env) (home ex_env) ''nope.ca'' = ''/home/droppy/nope.ca''"
    by code_simp
  have pd: "path_resolve (cwd ex_env) (home ex_env) ''nope.pem'' = ''/home/droppy/nope.pem''"
    by code_simp
  have r1: "fst (tlsInit ex_env ?o1 ?st) = Inl (MissingKeyFile ''/home/droppy/nope.key'')"
  proof -
    have k: "opts_key ?o1 = Some ''nope.key''" and c: "opts_cert ?o1 = Some ''nope.crt''"
      by code_simp+
    have a: "fs ex_env (path_resolve (cwd ex_env) (home ex_env) ''nope.key'') = NoEntry"
      and b: "fs ex_env (path_resolve (cwd ex_env) (home ex_env) ''nope.crt'') = NoEntry"
      by code_simp+
    from validation_order[OF k c refl, of ex_env ?st] a b pk show ?thesis by simp
  qed
  have r2: "fst (tlsInit ex_env ?o2 ?st) = Inl (MissingKeyFile ''/home/droppy/nope.key'')"
  proof -
    have k: "opts_key ?o2 = Some ''nope.key''" and c: "opts_cert ?o2 = Some ''nope.crt''"
      by code_simp+
    have a: "\<not> truthy (entry (asyncMap_readFile ex_env
               (certPaths ex_env ?o2 ''nope.key'' ''nope.crt'')) 0)" by code_simp
    from validation_order[OF k c refl, of ex_env ?st] a pk show ?thesis by simp
  qed
  have r3: "fst (tlsInit ex_env ?o3 ?st) = Inl (MissingCertFile ''/home/droppy/nope.crt'')"
  proof -
    have k: "opts_key ?o3 = Some ''tls.key''" and c: "opts_cert ?o3 = Some ''nope.crt''"
      by code_simp+
    have a: "truthy (entry (asyncMap_readFile ex_env
               (certPaths ex_env ?o3 ''tls.key'' ''nope.crt'')) 0)"
      and b: "\<not> truthy (entry (asyncMap_readFile ex_env
               (certPaths ex_env ?o3 ''tls.key'' ''nope.crt'')) 1)" by code_simp+
    from validation_order[OF k c refl, of ex_env ?st] a b pc show ?thesis by simp
  qed
  have r4: "fst (tlsInit ex_env ?o4 ?st) = Inl (MissingCAFile ''/home/droppy/nope.ca'')"
  proof -
    have k: "opts_key ?o4 = Some ''tls.key''" and c: "opts_cert ?o4 = Some ''tls.crt''"
      by code_simp+
    have a: "truthy (entry (asyncMap_readFile ex_env
               (certPaths ex_env ?o4 ''tls.key'' ''tls.crt'')) 0)"
      and b: "truthy (entry (asyncMap_readFile ex_env
               (certPaths ex_env ?o4 ''tls.key'' ''tls.crt'')) 1)"
      and d: "truthy (opts_ca ?o4)"
      and f: "\<not> truthy (entry (asyncMap_readFile ex_env
               (certPaths ex_env ?o4 ''tls.key'' ''tls.crt'')) 2)"
      and s: "str (opts_ca ?o4) = ''nope.ca''" by code_simp+
    from validation_order[OF k c refl, of ex_env ?st] a b d f s pa show ?thesis by simp
  qed
  have r5: "fst (tlsInit ex_env ?o5 ?st) = Inl (MissingDHParamFile ''/home/droppy/nope.pem'')"
  proof -
    have k: "opts_key ?o5 = Some ''tls.key''" and c: "opts_cert ?o5 = Some ''tls.crt''"
      by code_simp+
    have a: "truthy (entry (asyncMap_readFile ex_env
               (certPaths ex_env ?o5 ''tls.key'' ''tls.crt'')) 0)"
      and b: "truthy (entry (asyncMap_readFile ex_env
               (certPaths ex_env ?o5 ''tls.key'' ''tls.crt'')) 1)"
      and d: "\<not> truthy (opts_ca ?o5)"
      and f: "truthy (opts_dhparam ?o5)"
      and g: "\<not> truthy (entry (asyncMap_readFile ex_env
               (certPaths ex_env ?o5 ''tls.key'' ''tls.crt'')) 3)"
      and s: "str (opts_dhparam ?o5) = ''nope.pem''" by code_simp+
    from validation_order[OF k c refl, of ex_env ?st] a b d f g s pd show ?thesis by simp
  qed
  from r1 r2 r3 r4 r5 show ?thesis by simp
qed

subsection \<open>Paths that are not regular files\<close>

lemma readFile_not_regular:
  "files p = NoEntry \<or> files p = NotRegular \<Longrightarrow> readFile decode files (Some p) = Inr None"
  by (auto simp: readFile_def)

text \<open>
  C9. \<^verbatim>\<open>readFile\<close> answers absent, not an error, when nothing is at the path and when
  what is there is not a regular file. A whole call cannot tell the two apart: replacing
  a directory by nothing changes neither its result nor its effects. So a key path that
  names a directory fails with the error of the missing key.
\<close>

theorem not_regular_like_absent:
  "(files p = NoEntry \<or> files p = NotRegular \<longrightarrow> readFile decode files (Some p) = Inr None) \<and>
   (fs e q = NotRegular \<longrightarrow>
      tlsInit (e\<lparr>fs := (fs e)(q := NoEntry)\<rparr>) opts st = tlsInit e opts st) \<and>
   (opts_key opts = Some k \<and> opts_cert opts = Some c \<and>
    fs e (path_resolve (cwd e) (home e) k) = NotRegular \<longrightarrow>
      tlsInit e opts st = (Inl (MissingKeyFile (path_resolve (cwd e) (home e) k)), st))"
proof (intro conjI impI)
  assume "files p = NoEntry \<or> files p = NotRegular"
  then show "readFile decode files (Some p) = Inr None" by (rule readFile_not_regular)
next
  assume nr: "fs e q = NotRegular"
  have "\<forall>ps. asyncMap_readFile (e\<lparr>fs := (fs e)(q := NoEntry)\<rparr>) ps = asyncMap_readFile e ps"
  proof
    fix ps
    have "\<forall>p \<in> set ps. readFile (String_of e) ((fs e)(q := NoEntry)) p
                         = readFile (String_of e) (fs e) p"
      using nr by (auto simp: readFile_def split: option.splits)
    then show "asyncMap_readFile (e\<lparr>fs := (fs e)(q := NoEntry)\<rparr>) ps = asyncMap_readFile e ps"
      by (rule asyncMap_cong)
  qed
  then show "tlsInit (e\<lparr>fs := (fs e)(q := NoEntry)\<rparr>) opts st = tlsInit e opts st"
    by (cases opts rule: tlsInit_cases) (simp_all add: tlsInit_user tlsInit_self)
next
  assume a: "opts_key opts = Some k \<and> opts_cert opts = Some c \<and>
    fs e (path_resolve (cwd e) (home e) k) = NotRegular"
  then have "\<not> truthy (entry (asyncMap_readFile e (certPaths e opts k c)) 0)"
    by (intro key_unavailable) simp
  then show "tlsInit e opts st = (Inl (MissingKeyFile (path_resolve (cwd e) (home e) k)), st)"
    using a by (simp add: tlsInit_user afterRead_def entry_certPaths certPaths_nth)
qed

theorem not_regular_like_absent_witness:
  "ex_fs ''/home/droppy/certs'' = NotRegular \<and>
   readFile (String_of ex_env) ex_fs (Some ''/home/droppy/certs'') = Inr None \<and>
   readFile (String_of ex_env) ex_fs (Some ''/home/droppy/nope.key'') = Inr None \<and>
   tlsInit (ex_env\<lparr>fs := (fs ex_env)(''/home/droppy/certs'' := NoEntry)\<rparr>)
       (ex_config (Some ''certs'') (Some ''tls.crt'') None None) (ex_store None)
     = tlsInit ex_env (ex_config (Some ''certs'') (Some ''tls.crt'') None None) (ex_store None) \<and>
   tlsInit ex_env (ex_config (Some ''certs'') (Some ''tls.crt'') None None) (ex_store None)
     = (Inl (MissingKeyFile ''/home/droppy/certs''), ex_store None)"
proof -
  let ?opts = "ex_config (Some ''certs'') (Some ''tls.crt'') None None"
  have d: "ex_fs ''/home/droppy/certs'' = NotRegular" by code_simp
  have n: "ex_fs ''/home/droppy/nope.key'' = NoEntry" by code_simp
  have fd: "fs ex_env ''/home/droppy/certs'' = NotRegular" by code_simp
  have k: "opts_key ?opts = Some ''certs''" and c: "opts_cert ?opts = Some ''tls.crt''"
    by code_simp+
  have pk: "path_resolve (cwd ex_env) (home ex_env) ''certs'' = ''/home/droppy/certs''"
    by code_simp
  from not_regular_like_absent[of ex_fs "''/home/droppy/certs''" "String_of ex_env" ex_env
      "''/home/droppy/certs''"
      ?opts "ex_store None" "''certs''" "''tls.crt''"] d fd k c pk
  have 1: "readFile (String_of ex_env) ex_fs (Some ''/home/droppy/certs'') = Inr None"
    and 2: "tlsInit (ex_env\<lparr>fs := (fs ex_env)(''/home/droppy/certs'' := NoEntry)\<rparr>) ?opts (ex_store None)
     = tlsInit ex_env ?opts (ex_store None)"
    and 3: "tlsInit ex_env ?opts (ex_store None)
     = (Inl (MissingKeyFile ''/home/droppy/certs''), ex_store None)"
    by simp_all
  from not_regular_like_absent[of ex_fs "''/home/droppy/nope.key''" "String_of ex_env"] n
  have 4: "readFile (String_of ex_env) ex_fs (Some ''/home/droppy/nope.key'') = Inr None" by simp
  from d 1 2 3 4 show ?thesis by simp
qed

subsection \<open>A weak parameter file of the user\<close>

text \<open>
  C2, as the source has it. With a parameter file configured that is a regular file
  whose text (\<^verbatim>\<open>String(data)\<close> of its bytes) the inspector measures below 1024 bits, a call that returns a bundle has
  generated parameters of \<^verbatim>\<open>DHPARAM_BITS\<close> bits, returns them in the bundle, and has
  written them to the store under \<^verbatim>\<open>dhparam\<close>: \<^verbatim>\<open>createDH\<close> stores whatever it creates,
  for every caller. The file of the user is not written; the source has no write to
  the file system.
\<close>

theorem weak_user_file_overwrites_store:
  assumes "opts_key opts = Some k" "opts_cert opts = Some c"
    "opts_dhparam opts = Some p" "p \<noteq> []"
    "fs e (path_resolve (cwd e) (home e) p) = Regular raw"
    "getDhparamInfo e (String_of e raw) = Inr n" "n < 1024"
    "fst (tlsInit e opts st) = Inr b"
  shows "\<exists>g. createDhparam e DHPARAM_BITS = Inr g \<and> dhparam b = Some g \<and>
             db (snd (tlsInit e opts st)) = (db st)(''dhparam'' \<mapsto> g)"
proof -
  let ?data = "asyncMap_readFile e (certPaths e opts k c)"
  have cfg: "truthy (opts_dhparam opts)" using assms(3,4) by (simp add: truthy_def)
  have ok: "fst (afterRead e opts (certPaths e opts k c) ?data st) = Inr b"
    using assms(8) by (simp add: tlsInit_user[OF assms(1,2)])
  from afterRead_success[OF ok] cfg have t: "truthy (entry ?data 3)" by auto
  have d3: "entry ?data 3 = Some (String_of e raw)"
    using data_entry[OF _ t] certPaths_nth(4)[OF cfg, of e k c] assms(3,5)
    by (simp add: readFile_def delivered_def)
  show ?thesis
    using ok t cfg d3 assms(6,7)
    by (auto simp: tlsInit_user[OF assms(1,2)] afterRead_def Let_def createDH_def
                   log_simple_def db_set_def
             split: sum.splits if_splits)
qed

theorem weak_user_file_overwrites_store_witness:
  "fs ex_env (path_resolve (cwd ex_env) (home ex_env) ''weak.pem'') = Regular ''WEAK'' \<and>
   getDhparamInfo ex_env (String_of ex_env ''WEAK'') = Inr 512 \<and>
   createDhparam ex_env DHPARAM_BITS = Inr ''STRONG'' \<and>
   dhparam (projr (fst (tlsInit ex_env
       (ex_config (Some ''tls.key'') (Some ''tls.crt'') None (Some ''weak.pem''))
       (ex_store (Some ''PREVIOUS''))))) = Some ''STRONG'' \<and>
   db (snd (tlsInit ex_env
       (ex_config (Some ''tls.key'') (Some ''tls.crt'') None (Some ''weak.pem''))
       (ex_store (Some ''PREVIOUS''))))
     = (db (ex_store (Some ''PREVIOUS'')))(''dhparam'' \<mapsto> ''STRONG'')"
proof -
  let ?opts = "ex_config (Some ''tls.key'') (Some ''tls.crt'') None (Some ''weak.pem'')"
  let ?st = "ex_store (Some ''PREVIOUS'')"
  have k: "opts_key ?opts = Some ''tls.key''" and c: "opts_cert ?opts = Some ''tls.crt''"
    and p: "opts_dhparam ?opts = Some ''weak.pem''" by code_simp+
  have ne: "''weak.pem'' \<noteq> []" by simp
  have f: "fs ex_env (path_resolve (cwd ex_env) (home ex_env) ''weak.pem'') = Regular ''WEAK''"
    by code_simp
  have i: "getDhparamInfo ex_env (String_of ex_env ''WEAK'') = Inr 512" by code_simp
  have lt: "(512::nat) < 1024" by simp
  have g: "createDhparam ex_env DHPARAM_BITS = Inr ''STRONG''" by code_simp
  define b where "b = \<lparr>selfsigned = False, key = ''KEY'', cert = ex_leaf_bare,
                         ca = Some ex_chain, dhparam = Some ''STRONG''\<rparr>"
  have "fst (tlsInit ex_env ?opts ?st)
          = Inr \<lparr>selfsigned = False, key = ''KEY'', cert = ex_leaf_bare,
                 ca = Some ex_chain, dhparam = Some ''STRONG''\<rparr>" by code_simp
  then have b: "fst (tlsInit ex_env ?opts ?st) = Inr b" by (simp add: b_def)
  from weak_user_file_overwrites_store[OF k c p ne f i lt b] g
  have "dhparam b = Some ''STRONG''"
    "db (snd (tlsInit ex_env ?opts ?st)) = (db ?st)(''dhparam'' \<mapsto> ''STRONG'')" by auto
  with b f i g show ?thesis by simp
qed

theorem weak_user_file_store_counterexample:
  "opts_dhparam (ex_config (Some ''tls.key'') (Some ''tls.crt'') None (Some ''weak.pem''))
     = Some ''weak.pem'' \<and>
   fs ex_env (path_resolve (cwd ex_env) (home ex_env) ''weak.pem'') = Regular ''WEAK'' \<and>
   getDhparamInfo ex_env (String_of ex_env ''WEAK'') = Inr 512 \<and>
   db (ex_store (Some ''PREVIOUS'')) ''dhparam'' = Some ''PREVIOUS'' \<and>
   db (snd (tlsInit ex_env
       (ex_config (Some ''tls.key'') (Some ''tls.crt'') None (Some ''weak.pem''))
       (ex_store (Some ''PREVIOUS'')))) ''dhparam'' = Some ''STRONG'' \<and>
   trace (snd (tlsInit ex_env
       (ex_config (Some ''tls.key'') (Some ''tls.crt'') None (Some ''weak.pem''))
       (ex_store (Some ''PREVIOUS''))))
     = [LogSimple ''DH parameters key too short, regenerating'',
        LogSimple ''Generating 2048 bit DH parameters. This will take a long time.'',
        DbSet ''dhparam'' ''STRONG'']"
  by code_simp

subsection \<open>Delimiters in a text\<close>

lemma occurs_at_Suc [simp]: "occurs_at (c # cs) needle (Suc i) = occurs_at cs needle i"
  by (simp add: occurs_at_def)

lemma occurs_at_0: "occurs_at hay needle 0 = (take (length needle) hay = needle)"
  by (simp add: occurs_at_def)

lemma occurs_at_bound:
  assumes "needle \<noteq> []" "occurs_at hay needle i"
  shows "i + length needle \<le> length hay"
proof -
  have "length (take (length needle) (drop i hay)) = length needle"
    using assms(2) by (simp add: occurs_at_def)
  then have "length needle \<le> length hay - i" by simp
  moreover have "0 < length needle" using assms(1) by simp
  ultimately show ?thesis by arith
qed

lemma first_at_iff:
  "first_at hay needle i \<longleftrightarrow> occurs_at hay needle i \<and> (\<forall>j<i. \<not> occurs_at hay needle j)"
  by (auto simp: first_at_def list_all_iff)

lemma last_at_iff:
  assumes "needle \<noteq> []"
  shows "last_at hay needle i \<longleftrightarrow> occurs_at hay needle i \<and> (\<forall>j>i. \<not> occurs_at hay needle j)"
proof -
  have "\<not> occurs_at hay needle j" if "length hay < j" for j
    using occurs_at_bound[OF assms, of hay j] that by auto
  then have "(\<forall>j \<in> set [Suc i ..< Suc (length hay)]. \<not> occurs_at hay needle j)
               \<longleftrightarrow> (\<forall>j>i. \<not> occurs_at hay needle j)"
    by (metis Suc_leI atLeastLessThan_iff less_Suc_eq_le not_less set_upt Suc_le_lessD)
  then show ?thesis by (simp add: last_at_def list_all_iff)
qed

lemma absent_from_iff:
  assumes "needle \<noteq> []"
  shows "absent_from hay needle \<longleftrightarrow> (\<forall>j. \<not> occurs_at hay needle j)"
proof -
  have "\<not> occurs_at hay needle j" if "length hay < j" for j
    using occurs_at_bound[OF assms, of hay j] that by auto
  then have "(\<forall>j \<in> set [0 ..< Suc (length hay)]. \<not> occurs_at hay needle j)
               \<longleftrightarrow> (\<forall>j. \<not> occurs_at hay needle j)"
    by (metis atLeastLessThan_iff less_Suc_eq_le not_less set_upt zero_le)
  then show ?thesis by (simp add: absent_from_def list_all_iff)
qed

lemma indexOf_from_none:
  "needle \<noteq> [] \<Longrightarrow> \<forall>i. \<not> occurs_at hay needle i \<Longrightarrow> indexOf_from k hay needle = - 1"
proof (induction hay arbitrary: k)
  case Nil
  then show ?case by simp
next
  case (Cons c cs)
  from Cons.prems(2) have no0: "take (length needle) (c # cs) \<noteq> needle"
    using occurs_at_0[of "c # cs" needle] by blast
  have "\<forall>i. \<not> occurs_at cs needle i"
    using Cons.prems(2) occurs_at_Suc[of c cs needle] by blast
  from Cons.IH[OF Cons.prems(1) this] no0 show ?case by simp
qed

lemma indexOf_from_first:
  "needle \<noteq> [] \<Longrightarrow> occurs_at hay needle i \<Longrightarrow> \<forall>j<i. \<not> occurs_at hay needle j \<Longrightarrow>
   indexOf_from k hay needle = int (k + i)"
proof (induction hay arbitrary: k i)
  case Nil
  then show ?case by (simp add: occurs_at_def)
next
  case (Cons c cs)
  show ?case
  proof (cases i)
    case 0
    with Cons.prems(2) have "take (length needle) (c # cs) = needle"
      by (simp add: occurs_at_0)
    with 0 show ?thesis by simp
  next
    case (Suc i')
    with Cons.prems(3) have no0: "take (length needle) (c # cs) \<noteq> needle"
      using occurs_at_0[of "c # cs" needle] by blast
    have occ: "occurs_at cs needle i'" using Cons.prems(2) Suc by simp
    have "\<forall>j<i'. \<not> occurs_at cs needle j"
    proof (intro allI impI)
      fix j assume "j < i'"
      then have "Suc j < i" using Suc by simp
      with Cons.prems(3) have "\<not> occurs_at (c # cs) needle (Suc j)" by blast
      then show "\<not> occurs_at cs needle j" by simp
    qed
    from Cons.IH[OF Cons.prems(1) occ this, of "Suc k"] no0 Suc show ?thesis by simp
  qed
qed

lemma lastIndexOf_from_none:
  "needle \<noteq> [] \<Longrightarrow> \<forall>i. \<not> occurs_at hay needle i \<Longrightarrow>
   lastIndexOf_from k found hay needle = found"
proof (induction hay arbitrary: k found)
  case Nil
  then show ?case by simp
next
  case (Cons c cs)
  from Cons.prems(2) have no0: "take (length needle) (c # cs) \<noteq> needle"
    using occurs_at_0[of "c # cs" needle] by blast
  have "\<forall>i. \<not> occurs_at cs needle i"
    using Cons.prems(2) occurs_at_Suc[of c cs needle] by blast
  from Cons.IH[OF Cons.prems(1) this] no0 show ?case by simp
qed

lemma lastIndexOf_from_last:
  "needle \<noteq> [] \<Longrightarrow> occurs_at hay needle i \<Longrightarrow> \<forall>j>i. \<not> occurs_at hay needle j \<Longrightarrow>
   lastIndexOf_from k found hay needle = int (k + i)"
proof (induction hay arbitrary: k found i)
  case Nil
  then show ?case by (simp add: occurs_at_def)
next
  case (Cons c cs)
  show ?case
  proof (cases i)
    case 0
    with Cons.prems(2) have m: "take (length needle) (c # cs) = needle"
      by (simp add: occurs_at_0)
    have "\<forall>j. \<not> occurs_at cs needle j"
    proof
      fix j
      have "\<not> occurs_at (c # cs) needle (Suc j)" using Cons.prems(3) 0 by blast
      then show "\<not> occurs_at cs needle j" by simp
    qed
    from lastIndexOf_from_none[OF Cons.prems(1) this] m 0 show ?thesis by simp
  next
    case (Suc i')
    have occ: "occurs_at cs needle i'" using Cons.prems(2) Suc by simp
    have "\<forall>j>i'. \<not> occurs_at cs needle j"
    proof (intro allI impI)
      fix j assume "i' < j"
      then have "i < Suc j" using Suc by simp
      with Cons.prems(3) have "\<not> occurs_at (c # cs) needle (Suc j)" by blast
      then show "\<not> occurs_at cs needle j" by simp
    qed
    from Cons.IH[OF Cons.prems(1) occ this, of "Suc k"] Suc show ?thesis by simp
  qed
qed

lemma indexOf_first: "needle \<noteq> [] \<Longrightarrow> first_at hay needle i \<Longrightarrow> indexOf hay needle = int i"
  using indexOf_from_first[of needle hay i 0] by (simp add: indexOf_def first_at_iff)

lemma indexOf_absent: "needle \<noteq> [] \<Longrightarrow> absent_from hay needle \<Longrightarrow> indexOf hay needle = - 1"
  using indexOf_from_none[of needle hay 0] by (simp add: indexOf_def absent_from_iff)

lemma lastIndexOf_last:
  "needle \<noteq> [] \<Longrightarrow> last_at hay needle i \<Longrightarrow> lastIndexOf hay needle = int i"
  using lastIndexOf_from_last[of needle hay i 0 "- 1"] by (simp add: lastIndexOf_def last_at_iff)

lemma first_or_absent:
  assumes "needle \<noteq> []"
  shows "absent_from hay needle \<or> (\<exists>i. first_at hay needle i)"
proof (cases "\<exists>i. occurs_at hay needle i")
  case False
  then show ?thesis using absent_from_iff[OF assms] by blast
next
  case True
  then obtain i where "occurs_at hay needle i" by blast
  then have "occurs_at hay needle (LEAST i. occurs_at hay needle i)"
    "\<forall>j < (LEAST i. occurs_at hay needle i). \<not> occurs_at hay needle j"
    by (auto intro: LeastI dest: not_less_Least)
  then show ?thesis using first_at_iff by blast
qed

lemma last_exists:
  assumes "needle \<noteq> []" "occurs_at hay needle i"
  shows "\<exists>l. last_at hay needle l \<and> i \<le> l"
proof -
  let ?P = "\<lambda>j. occurs_at hay needle j"
  have bound: "\<forall>j. ?P j \<longrightarrow> j \<le> length hay"
    using occurs_at_bound[OF assms(1)] by fastforce
  have 1: "?P (Greatest ?P)" using assms(2) bound by (metis GreatestI_nat)
  have 2: "\<forall>j. ?P j \<longrightarrow> j \<le> Greatest ?P" using bound by (metis Greatest_le_nat)
  have "\<forall>j > Greatest ?P. \<not> ?P j" using 2 by (meson not_less)
  with 1 have "last_at hay needle (Greatest ?P)" using last_at_iff[OF assms(1)] by blast
  moreover have "i \<le> Greatest ?P" using 2 assms(2) by blast
  ultimately show ?thesis by blast
qed

lemma first_exists:
  assumes "occurs_at hay needle i"
  shows "\<exists>f. first_at hay needle f \<and> f \<le> i"
proof -
  have "occurs_at hay needle (LEAST i. occurs_at hay needle i)"
    "\<forall>j < (LEAST i. occurs_at hay needle i). \<not> occurs_at hay needle j"
    "(LEAST i. occurs_at hay needle i) \<le> i"
    using assms by (auto intro: LeastI Least_le dest: not_less_Least)
  then show ?thesis using first_at_iff by blast
qed

subsection \<open>Splitting a combined certificate\<close>

lemma certStart_not_Nil [simp]: "certStart \<noteq> []"
  by (simp add: certStart_def)

lemma certEnd_not_Nil [simp]: "certEnd \<noteq> []"
  by (simp add: certEnd_def)

lemma length_certStart [simp]: "length certStart = 27"
  by (simp add: certStart_def)

lemma length_certEnd [simp]: "length certEnd = 25"
  by (simp add: certEnd_def)

text \<open>
  C3, as the source has it. In the user's mode, with no intermediate certificate
  configured, let \<open>buf\<close> be the text of the certificate file (\<^verbatim>\<open>String(data)\<close> of its
  bytes) and let the begin delimiter occur in it at two different positions. Then the
  intermediate certificate of a returned bundle is \<open>buf\<close> from its last begin delimiter
  on, and the certificate is \<open>buf\<close> up to the end of its first end delimiter, or the
  first 24 characters of \<open>buf\<close> when it has no end delimiter. For \<open>buf = leaf @ chain\<close>
  the two are \<open>leaf\<close> and \<open>chain\<close> if and only if the last begin delimiter of \<open>buf\<close> stands
  at the end of \<open>leaf\<close> and the first end delimiter of \<open>buf\<close> ends there (or \<open>buf\<close> has no
  end delimiter and \<open>leaf\<close> is 24 characters long).
\<close>

theorem combined_certificate_split:
  assumes "opts_key opts = Some k" "opts_cert opts = Some c" "\<not> truthy (opts_ca opts)"
    "fs e (path_resolve (cwd e) (home e) c) = Regular raw" "buf = String_of e raw"
    "occurs_at buf certStart i" "occurs_at buf certStart j" "i \<noteq> j"
    "fst (tlsInit e opts st) = Inr b"
  shows "(\<exists>l. last_at buf certStart l \<and> ca b = Some (drop l buf)) \<and>
         ((\<exists>f. first_at buf certEnd f \<and> cert b = take (f + length certEnd) buf) \<or>
          (absent_from buf certEnd \<and> cert b = take 24 buf)) \<and>
         (\<forall>leaf chain.
            buf = leaf @ chain \<longrightarrow>
              (cert b = leaf \<and> ca b = Some chain \<longleftrightarrow>
               last_at buf certStart (length leaf) \<and>
               ((\<exists>f. first_at buf certEnd f \<and> f + length certEnd = length leaf) \<or>
                (absent_from buf certEnd \<and> length leaf = 24))))"
proof -
  let ?data = "asyncMap_readFile e (certPaths e opts k c)"
  have ok: "fst (afterRead e opts (certPaths e opts k c) ?data st) = Inr b"
    using assms(9) by (simp add: tlsInit_user[OF assms(1,2)])
  from afterRead_success[OF ok] obtain dh where
    t: "truthy (entry ?data 1)" and
    b: "b = finish (str (entry ?data 0)) (str (entry ?data 1)) (entry ?data 2) dh" by auto
  have d1: "entry ?data 1 = Some buf"
    using data_entry[OF _ t] assms(4,5) by (simp add: certPaths_nth readFile_def delivered_def)
  \<comment> \<open>the first and the last begin delimiter differ, so \<^verbatim>\<open>finish\<close> splits\<close>
  obtain f0 where f0: "first_at buf certStart f0" "f0 \<le> i" "f0 \<le> j"
    using first_exists[OF assms(6)] first_exists[OF assms(7)]
      indexOf_first[of certStart buf] by (metis certStart_not_Nil of_nat_eq_iff)
  obtain l where l: "last_at buf certStart l" "i \<le> l" "j \<le> l"
    using last_exists[OF _ assms(6)] last_exists[OF _ assms(7)]
      lastIndexOf_last[of certStart buf] by (metis certStart_not_Nil of_nat_eq_iff)
  have "f0 \<noteq> l" using f0(2,3) l(2,3) assms(8) by arith
  then have ne: "indexOf buf certStart \<noteq> lastIndexOf buf certStart"
    using indexOf_first[OF _ f0(1)] lastIndexOf_last[OF _ l(1)] by simp
  have li: "lastIndexOf buf certStart = int l" using lastIndexOf_last[OF _ l(1)] by simp
  have lb: "l + 27 \<le> length buf"
    using occurs_at_bound[of certStart buf l] l(1) by (simp add: last_at_def)
  have ca: "ca b = Some (drop l buf)"
    using b d1 data_ca_unset[OF assms(3), of e k c] ne li
    by (simp add: finish_def substring_from_drop)
  have cert: "cert b = take (nat (indexOf buf certEnd + 25)) buf"
  proof -
    have "0 \<le> indexOf buf certEnd + 25"
      using first_or_absent[of certEnd buf] indexOf_first[of certEnd buf]
        indexOf_absent[of certEnd buf] by auto
    then show ?thesis
      using b d1 data_ca_unset[OF assms(3), of e k c] ne
      by (simp add: finish_def substring_take)
  qed
  have uniq_last: "l' = l" if "last_at buf certStart l'" for l'
    using lastIndexOf_last[OF _ that] li by simp
  have part1: "\<exists>l. last_at buf certStart l \<and> ca b = Some (drop l buf)" using l(1) ca by blast
  show ?thesis
  proof (cases "absent_from buf certEnd")
    case True
    then have ix: "indexOf buf certEnd = - 1" by (simp add: indexOf_absent)
    have c24: "cert b = take 24 buf" using cert ix by simp
    have nofirst: "\<not> first_at buf certEnd f" for f
      using indexOf_first[of certEnd buf f] ix by auto
    have "(cert b = leaf \<and> ca b = Some chain) \<longleftrightarrow>
            (last_at buf certStart (length leaf) \<and> length leaf = 24)"
      if eq: "buf = leaf @ chain" for leaf chain
    proof
      assume h: "cert b = leaf \<and> ca b = Some chain"
      then have "drop l buf = chain" using ca by simp
      then have "length buf - l = length chain" by (metis length_drop)
      then have ll: "l = length leaf" using lb eq by simp
      have "length (take 24 buf) = length leaf" using h c24 by simp
      then have "length leaf = 24" using lb by simp
      with ll l(1) show "last_at buf certStart (length leaf) \<and> length leaf = 24" by simp
    next
      assume h: "last_at buf certStart (length leaf) \<and> length leaf = 24"
      then have "l = length leaf" using uniq_last by metis
      then show "cert b = leaf \<and> ca b = Some chain" using h c24 ca eq by simp
    qed
    with part1 True c24 nofirst show ?thesis by blast
  next
    case False
    then obtain f where f: "first_at buf certEnd f"
      using first_or_absent[of certEnd buf] by auto
    then have ix: "indexOf buf certEnd = int f" by (simp add: indexOf_first)
    have cf: "cert b = take (f + 25) buf" using cert ix by (simp add: nat_add_distrib)
    have uniq_first: "f' = f" if "first_at buf certEnd f'" for f'
      using indexOf_first[OF _ that] ix by simp
    have "(cert b = leaf \<and> ca b = Some chain) \<longleftrightarrow>
            (last_at buf certStart (length leaf) \<and> f + 25 = length leaf)"
      if eq: "buf = leaf @ chain" for leaf chain
    proof
      assume h: "cert b = leaf \<and> ca b = Some chain"
      then have "drop l buf = chain" using ca by simp
      then have "length buf - l = length chain" by (metis length_drop)
      then have ll: "l = length leaf" using lb eq by simp
      have "length (take (f + 25) buf) = length leaf" using h cf by simp
      then have "f + 25 = length leaf" using lb ll by simp
      with ll l(1) show "last_at buf certStart (length leaf) \<and> f + 25 = length leaf" by simp
    next
      assume h: "last_at buf certStart (length leaf) \<and> f + 25 = length leaf"
      then have "l = length leaf" using uniq_last by metis
      then show "cert b = leaf \<and> ca b = Some chain" using h cf ca eq by simp
    qed
    then have "\<forall>leaf chain. buf = leaf @ chain \<longrightarrow>
              (cert b = leaf \<and> ca b = Some chain \<longleftrightarrow>
               last_at buf certStart (length leaf) \<and>
               ((\<exists>f. first_at buf certEnd f \<and> f + length certEnd = length leaf) \<or>
                (absent_from buf certEnd \<and> length leaf = 24)))"
      using False f uniq_first by (metis length_certEnd)
    moreover have "\<exists>f. first_at buf certEnd f \<and> cert b = take (f + length certEnd) buf"
      using f cf by auto
    ultimately show ?thesis using part1 by blast
  qed
qed

theorem combined_certificate_split_witness:
  "fs ex_env (path_resolve (cwd ex_env) (home ex_env) ''bare.crt'')
     = Regular (ex_leaf_bare @ ex_chain) \<and>
   String_of ex_env (ex_leaf_bare @ ex_chain) = ex_leaf_bare @ ex_chain \<and>
   occurs_at (ex_leaf_bare @ ex_chain) certStart 0 \<and>
   last_at (ex_leaf_bare @ ex_chain) certStart (length ex_leaf_bare) \<and>
   first_at (ex_leaf_bare @ ex_chain) certEnd 28 \<and>
   28 + length certEnd = length ex_leaf_bare \<and>
   fst (tlsInit ex_env (ex_config (Some ''tls.key'') (Some ''bare.crt'') None None)
          (ex_store (Some ''STRONG'')))
     = Inr \<lparr>selfsigned = False, key = ''KEY'', cert = ex_leaf_bare, ca = Some ex_chain,
            dhparam = Some ''STRONG''\<rparr>"
proof -
  let ?opts = "ex_config (Some ''tls.key'') (Some ''bare.crt'') None None"
  let ?st = "ex_store (Some ''STRONG'')"
  let ?buf = "ex_leaf_bare @ ex_chain"
  have k: "opts_key ?opts = Some ''tls.key''" and c: "opts_cert ?opts = Some ''bare.crt''"
    and a: "\<not> truthy (opts_ca ?opts)" by code_simp+
  have f: "fs ex_env (path_resolve (cwd ex_env) (home ex_env) ''bare.crt'') = Regular ?buf"
    by code_simp
  have dec: "?buf = String_of ex_env ?buf" by (simp add: ex_env_def)
  have o0: "occurs_at ?buf certStart 0" by code_simp
  have o1: "occurs_at ?buf certStart 53" by code_simp
  have ne: "(0::nat) \<noteq> 53" by simp
  have la: "last_at ?buf certStart (length ex_leaf_bare)" by code_simp
  have fi: "first_at ?buf certEnd 28" by code_simp
  have len: "28 + length certEnd = length ex_leaf_bare" by code_simp
  define b where "b = \<lparr>selfsigned = False, key = ''KEY'', cert = ex_leaf_bare,
                         ca = Some ex_chain, dhparam = Some ''STRONG''\<rparr>"
  have "fst (tlsInit ex_env ?opts ?st)
          = Inr \<lparr>selfsigned = False, key = ''KEY'', cert = ex_leaf_bare,
                 ca = Some ex_chain, dhparam = Some ''STRONG''\<rparr>" by code_simp
  then have ok: "fst (tlsInit ex_env ?opts ?st) = Inr b" by (simp add: b_def)
  from combined_certificate_split[OF k c a f dec o0 o1 ne ok]
  have "\<forall>leaf chain. ?buf = leaf @ chain \<longrightarrow>
          (cert b = leaf \<and> ca b = Some chain \<longleftrightarrow>
           last_at ?buf certStart (length leaf) \<and>
           ((\<exists>f. first_at ?buf certEnd f \<and> f + length certEnd = length leaf) \<or>
            (absent_from ?buf certEnd \<and> length leaf = 24)))" by blast
  with la fi len have "cert b = ex_leaf_bare \<and> ca b = Some ex_chain" by blast
  with ok f dec[symmetric] o0 la fi len show ?thesis by (simp add: b_def)
qed

text \<open>
  Two certificate files on which the returned parts are not the concatenated parts: a
  leaf that ends in a line break after its end delimiter loses the line break, and of a
  chain of two certificates only the last one is returned.
\<close>

theorem combined_certificate_split_counterexample:
  "fs ex_env (path_resolve (cwd ex_env) (home ex_env) ''tls.crt'') = Regular (ex_leaf @ ex_chain) \<and>
   opts_ca (ex_config (Some ''tls.key'') (Some ''tls.crt'') None None) = None \<and>
   cert (projr (fst (tlsInit ex_env (ex_config (Some ''tls.key'') (Some ''tls.crt'') None None)
                       (ex_store (Some ''STRONG''))))) = ex_leaf_bare \<and>
   ex_leaf_bare \<noteq> ex_leaf \<and>
   fs ex_env (path_resolve (cwd ex_env) (home ex_env) ''full.crt'')
     = Regular (ex_leaf_bare @ (ex_chain @ ex_root)) \<and>
   ca (projr (fst (tlsInit ex_env (ex_config (Some ''tls.key'') (Some ''full.crt'') None None)
                     (ex_store (Some ''STRONG''))))) = Some ex_root \<and>
   ex_root \<noteq> ex_chain @ ex_root"
  by code_simp

subsection \<open>A weak parameter in the store, certificates of the user\<close>

text \<open>
  C1. The store holds \<open>WEAK\<close>, which the inspector measures at 512 bits, and no
  parameter file is configured. The self-signed call inspects it and replaces it by
  generated parameters. The call with the user's key and certificate returns \<open>WEAK\<close> in
  its bundle and does nothing but read the store: the branch of \<^verbatim>\<open>tlsInit\<close> for a
  missing parameter file hands the stored value to \<^verbatim>\<open>finish\<close> without
  \<^verbatim>\<open>pem.getDhparamInfo\<close>.
\<close>

theorem user_mode_returns_weak_stored_parameter:
  "getDhparamInfo ex_env ''WEAK'' = Inr 512 \<and>
   fst (tlsInit ex_env ex_user (ex_store (Some ''WEAK'')))
     = Inr \<lparr>selfsigned = False, key = ''KEY'', cert = ex_leaf_bare, ca = Some ex_chain,
            dhparam = Some ''WEAK''\<rparr> \<and>
   trace (snd (tlsInit ex_env ex_user (ex_store (Some ''WEAK'')))) = [DbGet ''dhparam''] \<and>
   db (snd (tlsInit ex_env ex_user (ex_store (Some ''WEAK'')))) ''dhparam'' = Some ''WEAK'' \<and>
   dhparam (projr (fst (tlsInit ex_env ex_self (ex_store (Some ''WEAK''))))) = Some ''STRONG'' \<and>
   db (snd (tlsInit ex_env ex_self (ex_store (Some ''WEAK'')))) ''dhparam'' = Some ''STRONG''"
  by code_simp

text \<open>
  C4. From the same store, two calls with the user's key and certificate and no
  parameter file: after the first the store still holds the 512-bit \<open>WEAK\<close>, and after
  the second as well. Two self-signed calls replace it in the first call and keep the
  2048-bit \<open>STRONG\<close> in the second.
\<close>

theorem user_mode_keeps_weak_stored_parameter:
  "getDhparamInfo ex_env ''WEAK'' = Inr 512 \<and>
   getDhparamInfo ex_env ''STRONG'' = Inr 2048 \<and>
   db (snd (tlsInit_seq [(ex_env, ex_user)] (ex_store (Some ''WEAK'')))) ''dhparam''
     = Some ''WEAK'' \<and>
   db (snd (tlsInit_seq [(ex_env, ex_user), (ex_env, ex_user)] (ex_store (Some ''WEAK''))))
      ''dhparam'' = Some ''WEAK'' \<and>
   map (\<lambda>r. case r of Inl _ \<Rightarrow> None | Inr b \<Rightarrow> dhparam b)
     (fst (tlsInit_seq [(ex_env, ex_user), (ex_env, ex_user)] (ex_store (Some ''WEAK''))))
     = [Some ''WEAK'', Some ''WEAK''] \<and>
   db (snd (tlsInit_seq [(ex_env, ex_self)] (ex_store (Some ''WEAK'')))) ''dhparam''
     = Some ''STRONG'' \<and>
   db (snd (tlsInit_seq [(ex_env, ex_self), (ex_env, ex_self)] (ex_store (Some ''WEAK''))))
      ''dhparam'' = Some ''STRONG''"
  by code_simp

subsection \<open>Paths\<close>

lemma split_slash_not_Nil [simp]: "split_slash s \<noteq> []"
  by (induction s) (auto split: list.splits)

lemma split_slash_append:
  "split_slash (a @ CHR ''/'' # b) = split_slash a @ split_slash b"
proof (induction a)
  case Nil
  show ?case by simp
next
  case (Cons x xs)
  obtain s ss where "split_slash xs = s # ss" by (cases "split_slash xs") auto
  with Cons show ?case by simp
qed

lemma split_slash_no_slash: "CHR ''/'' \<notin> set s \<Longrightarrow> split_slash s = [s]"
  by (induction s) auto

lemma split_slash_segments_no_slash: "x \<in> set (split_slash s) \<Longrightarrow> CHR ''/'' \<notin> set x"
proof (induction s arbitrary: x)
  case Nil
  then show ?case by simp
next
  case (Cons c cs)
  obtain t ts where ts: "split_slash cs = t # ts" by (cases "split_slash cs") auto
  show ?case
  proof (cases "c = CHR ''/''")
    case True
    with Cons show ?thesis by auto
  next
    case False
    with Cons.prems ts have "x = c # t \<or> x \<in> set ts" by simp
    then show ?thesis using Cons.IH[of t] Cons.IH[of x] ts False by auto
  qed
qed

lemma normalizeString_step:
  assumes "\<forall>r \<in> set res. plain r" "CHR ''/'' \<notin> set s"
  shows "\<exists>res'. (\<forall>r \<in> set res'. plain r) \<and>
           normalizeString ab res (s # ss) = normalizeString ab res' ss"
proof -
  have dd: "plain ''..''" by (simp add: plain_def)
  consider (skip) "s = [] \<or> s = ''.''"
    | (up) "s = ''..''"
    | (seg) "\<not> (s = [] \<or> s = ''.'')" "s \<noteq> ''..''" by blast
  then show ?thesis
  proof cases
    case skip
    then have "normalizeString ab res (s # ss) = normalizeString ab res ss" by auto
    with assms(1) show ?thesis by blast
  next
    case up
    show ?thesis
    proof (cases res)
      case Nil
      have "normalizeString ab [] (''..'' # ss)
              = normalizeString ab (if ab then [''..''] else []) ss" by simp
      moreover have "\<forall>r \<in> set (if ab then [''..''] else []). plain r" using dd by simp
      ultimately show ?thesis unfolding up Nil by blast
    next
      case (Cons r rs)
      let ?res' = "if r = ''..'' then (if ab then ''..'' # r # rs else r # rs) else rs"
      have "normalizeString ab (r # rs) (''..'' # ss) = normalizeString ab ?res' ss" by simp
      moreover have "\<forall>x \<in> set ?res'. plain x" using assms(1) dd Cons by simp
      ultimately show ?thesis unfolding up Cons by blast
    qed
  next
    case seg
    then have "normalizeString ab res (s # ss) = normalizeString ab (s # res) ss" by simp
    moreover have "\<forall>r \<in> set (s # res). plain r"
      using assms seg(1) by (simp add: plain_def)
    ultimately show ?thesis by blast
  qed
qed

lemma normalizeString_plain:
  "\<forall>r \<in> set res. plain r \<Longrightarrow> \<forall>x \<in> set xs. CHR ''/'' \<notin> set x \<Longrightarrow>
   \<forall>y \<in> set (normalizeString ab res xs). plain y"
proof (induction xs arbitrary: res)
  case Nil
  then show ?case by simp
next
  case (Cons s ss)
  from Cons.prems have "CHR ''/'' \<notin> set s" by simp
  from normalizeString_step[OF Cons.prems(1) this, of ab ss] obtain res' where
    r: "\<forall>r \<in> set res'. plain r" "normalizeString ab res (s # ss) = normalizeString ab res' ss"
    by blast
  from Cons.IH[OF r(1)] Cons.prems(2) show ?case unfolding r(2) by simp
qed

lemma normalizeString_append:
  "normalizeString ab res (xs @ ys) = normalizeString ab (rev (normalizeString ab res xs)) ys"
  by (induction ab res xs rule: normalizeString.induct) (auto split: list.splits)

lemma normalizeString_no_dotdot:
  "''..'' \<notin> set ys \<Longrightarrow>
   normalizeString ab res ys = rev res @ filter (\<lambda>s. s \<noteq> [] \<and> s \<noteq> ''.'') ys"
  by (induction ys arbitrary: res) auto

lemma segments_join:
  "\<forall>x \<in> set xs. plain x \<Longrightarrow> segments (join_slash xs) = xs"
proof (induction xs rule: join_slash.induct)
  case 1
  show ?case by (simp add: segments_def)
next
  case (2 s)
  then show ?case by (simp add: segments_def plain_def split_slash_no_slash)
next
  case (3 s t ss)
  then have "segments (join_slash (t # ss)) = t # ss" by simp
  moreover have "split_slash s = [s]" "s \<noteq> []" using 3(2) by (simp_all add: plain_def split_slash_no_slash)
  ultimately show ?case by (simp add: segments_def split_slash_append)
qed

lemma segments_root_join:
  "\<forall>x \<in> set xs. plain x \<Longrightarrow> segments (CHR ''/'' # join_slash xs) = xs"
  using segments_join[of xs] by (simp add: segments_def)

lemma path_resolve_absolute:
  assumes "p \<noteq> []" "hd p = CHR ''/''"
  shows "path_resolve w a p
           = CHR ''/'' # join_slash (normalizeString False [] (split_slash p @ [[]]))"
proof -
  have "split_slash (p @ ''/'') = split_slash p @ [[]]"
    using split_slash_append[of p "[]"] by simp
  then show ?thesis using assms by (simp add: path_resolve_def resolve_step_def)
qed

lemma path_resolve_relative:
  assumes "a \<noteq> []" "hd a = CHR ''/''" "p = [] \<or> hd p \<noteq> CHR ''/''"
  shows "path_resolve w a p
           = CHR ''/'' # join_slash (normalizeString False [] (split_slash a @ (if p = [] then [[]] else split_slash p @ [[]])))"
proof -
  have 1: "split_slash (a @ ''/'') = split_slash a @ [[]]"
    using split_slash_append[of a "[]"] by simp
  have 2: "split_slash (a @ CHR ''/'' # p @ ''/'') = split_slash a @ split_slash p @ [[]]"
    using split_slash_append[of a "p @ ''/''"] split_slash_append[of p "[]"] by simp
  show ?thesis using assms 1 2 by (auto simp: path_resolve_def resolve_step_def)
qed

lemma path_resolve_inside_home:
  assumes "a \<noteq> []" "hd a = CHR ''/''" "p = [] \<or> hd p \<noteq> CHR ''/''" "''..'' \<notin> set (split_slash p)"
  shows "inside (path_resolve w a []) (path_resolve w a p)"
proof -
  let ?H = "normalizeString False [] (split_slash a)"
  let ?F = "filter (\<lambda>s. s \<noteq> [] \<and> s \<noteq> ''.'') (split_slash p)"
  have dd: "''..'' \<noteq> []" by simp
  have base: "path_resolve w a [] = CHR ''/'' # join_slash ?H"
    using path_resolve_relative[OF assms(1,2), of "[]" w]
    by (simp add: normalizeString_append[of False "[]" "split_slash a"] )
  have tgt: "path_resolve w a p = CHR ''/'' # join_slash (?H @ (if p = [] then [] else ?F))"
    using path_resolve_relative[OF assms(1,2,3), of w] assms(4)
    by (simp add: normalizeString_append[of False "[]" "split_slash a"] normalizeString_no_dotdot)
  have pl: "\<forall>y \<in> set ?H. plain y"
    by (rule normalizeString_plain) (auto dest: split_slash_segments_no_slash)
  have pf: "\<forall>y \<in> set ?F. plain y"
    by (auto simp: plain_def dest: split_slash_segments_no_slash)
  have "segments (path_resolve w a []) = ?H" using pl by (simp add: base segments_root_join)
  moreover have "segments (path_resolve w a p) = ?H @ (if p = [] then [] else ?F)"
  proof -
    have "\<forall>y \<in> set (?H @ (if p = [] then [] else ?F)). plain y" using pl pf by auto
    then show ?thesis unfolding tgt by (rule segments_root_join)
  qed
  ultimately show ?thesis by (simp add: inside_def)
qed

text \<open>
  C8, as the source has it. The reads of a call in the user's mode go to
  \<^verbatim>\<open>path.resolve(paths.home, p)\<close> for the configured values \<open>p\<close>, and the file system is
  read nowhere else. With an absolute home directory, a relative value without a
  \<^verbatim>\<open>..\<close> segment resolves to a location inside the home directory; an absolute value
  resolves to itself, whatever the home directory is.
\<close>

theorem reads_resolved_against_home:
  assumes "opts_key opts = Some k" "opts_cert opts = Some c"
    "home e \<noteq> []" "hd (home e) = CHR ''/''"
  shows
   "certPaths e opts k c =
      [Some (path_resolve (cwd e) (home e) k),
       Some (path_resolve (cwd e) (home e) c),
       (if truthy (opts_ca opts)
        then Some (path_resolve (cwd e) (home e) (str (opts_ca opts))) else None),
       (if truthy (opts_dhparam opts)
        then Some (path_resolve (cwd e) (home e) (str (opts_dhparam opts))) else None)] \<and>
    (\<forall>f. (\<forall>q. Some q \<in> set (certPaths e opts k c) \<longrightarrow> f q = fs e q) \<longrightarrow>
         tlsInit (e\<lparr>fs := f\<rparr>) opts st = tlsInit e opts st) \<and>
    (\<forall>p. (p = [] \<or> hd p \<noteq> CHR ''/'') \<and> ''..'' \<notin> set (split_slash p) \<longrightarrow>
         inside (path_resolve (cwd e) (home e) []) (path_resolve (cwd e) (home e) p)) \<and>
    (\<forall>p. p \<noteq> [] \<and> hd p = CHR ''/'' \<longrightarrow>
         (\<forall>w a. path_resolve w a p = path_resolve (cwd e) (home e) p))"
proof (intro conjI allI impI)
  show "certPaths e opts k c =
      [Some (path_resolve (cwd e) (home e) k),
       Some (path_resolve (cwd e) (home e) c),
       (if truthy (opts_ca opts)
        then Some (path_resolve (cwd e) (home e) (str (opts_ca opts))) else None),
       (if truthy (opts_dhparam opts)
        then Some (path_resolve (cwd e) (home e) (str (opts_dhparam opts))) else None)]"
    by (auto simp: certPaths_def truthy_def split: option.splits)
next
  fix f assume "\<forall>q. Some q \<in> set (certPaths e opts k c) \<longrightarrow> f q = fs e q"
  then show "tlsInit (e\<lparr>fs := f\<rparr>) opts st = tlsInit e opts st"
    using assms(1,2) by (intro tlsInit_reads_only_certPaths) auto
next
  fix p assume "(p = [] \<or> hd p \<noteq> CHR ''/'') \<and> ''..'' \<notin> set (split_slash p)"
  then show "inside (path_resolve (cwd e) (home e) []) (path_resolve (cwd e) (home e) p)"
    using path_resolve_inside_home[OF assms(3,4)] by blast
next
  fix p w a assume "p \<noteq> [] \<and> hd p = CHR ''/''"
  then show "path_resolve w a p = path_resolve (cwd e) (home e) p"
    by (simp add: path_resolve_absolute)
qed

theorem reads_resolved_against_home_witness:
  "certPaths ex_env ex_user ''tls.key'' ''tls.crt''
     = [Some ''/home/droppy/tls.key'', Some ''/home/droppy/tls.crt'', None, None] \<and>
   tlsInit (ex_env\<lparr>fs := ex_fs(''/etc/ssl/private/host.key'' := NoEntry)\<rparr>) ex_user (ex_store None)
     = tlsInit ex_env ex_user (ex_store None) \<and>
   inside ''/home/droppy'' ''/home/droppy/tls.key'' \<and>
   path_resolve ''/srv'' ''/var/lib'' ''/etc/ssl/private/host.key'' = ''/etc/ssl/private/host.key''"
proof -
  let ?st = "ex_store None"
  have k: "opts_key ex_user = Some ''tls.key''" and c: "opts_cert ex_user = Some ''tls.crt''"
    and h: "home ex_env \<noteq> []" "hd (home ex_env) = CHR ''/''" by code_simp+
  note T = reads_resolved_against_home[OF k c h, of ?st]
  have ps: "certPaths ex_env ex_user ''tls.key'' ''tls.crt''
     = [Some ''/home/droppy/tls.key'', Some ''/home/droppy/tls.crt'', None, None]" by code_simp
  have fse: "fs ex_env = ex_fs" by (simp add: ex_env_def)
  have "\<forall>q. Some q \<in> set (certPaths ex_env ex_user ''tls.key'' ''tls.crt'') \<longrightarrow>
            (ex_fs(''/etc/ssl/private/host.key'' := NoEntry)) q = fs ex_env q"
    by (simp add: ps fse)
  with T have 2: "tlsInit (ex_env\<lparr>fs := ex_fs(''/etc/ssl/private/host.key'' := NoEntry)\<rparr>) ex_user ?st
     = tlsInit ex_env ex_user ?st" by blast
  have rel: "(''tls.key'' = [] \<or> hd ''tls.key'' \<noteq> CHR ''/'') \<and> ''..'' \<notin> set (split_slash ''tls.key'')"
    by code_simp
  have r0: "path_resolve (cwd ex_env) (home ex_env) [] = ''/home/droppy''"
    and r1: "path_resolve (cwd ex_env) (home ex_env) ''tls.key'' = ''/home/droppy/tls.key''"
    and r2: "path_resolve (cwd ex_env) (home ex_env) ''/etc/ssl/private/host.key''
               = ''/etc/ssl/private/host.key''"
    by code_simp+
  from T rel have "inside (path_resolve (cwd ex_env) (home ex_env) [])
                     (path_resolve (cwd ex_env) (home ex_env) ''tls.key'')" by blast
  then have 3: "inside ''/home/droppy'' ''/home/droppy/tls.key''" by (simp only: r0 r1)
  have "''/etc/ssl/private/host.key'' \<noteq> [] \<and> hd ''/etc/ssl/private/host.key'' = CHR ''/''"
    by simp
  with T have "path_resolve ''/srv'' ''/var/lib'' ''/etc/ssl/private/host.key''
                 = path_resolve (cwd ex_env) (home ex_env) ''/etc/ssl/private/host.key''" by blast
  then have 4: "path_resolve ''/srv'' ''/var/lib'' ''/etc/ssl/private/host.key''
                 = ''/etc/ssl/private/host.key''" by (simp only: r2)
  from ps 2 3 4 show ?thesis by simp
qed

theorem read_outside_home_counterexample:
  "home ex_env = ''/home/droppy'' \<and>
   certPaths ex_env (ex_config (Some ''/etc/ssl/private/host.key'') (Some ''tls.crt'') None None)
       ''/etc/ssl/private/host.key'' ''tls.crt''
     = [Some ''/etc/ssl/private/host.key'', Some ''/home/droppy/tls.crt'', None, None] \<and>
   \<not> inside ''/home/droppy'' ''/etc/ssl/private/host.key'' \<and>
   key (projr (fst (tlsInit ex_env
         (ex_config (Some ''/etc/ssl/private/host.key'') (Some ''tls.crt'') None None)
         (ex_store (Some ''STRONG''))))) = ''HOSTKEY'' \<and>
   key (projr (fst (tlsInit ex_env
         (ex_config (Some ''../../etc/ssl/private/host.key'') (Some ''tls.crt'') None None)
         (ex_store (Some ''STRONG''))))) = ''HOSTKEY''"
  by code_simp

end
